theory Spec2Isabelle
  imports Main "HOL-Library.AList" "HOL-Library.Sublist" "HOL-Library.Word"
begin

section \<open>The namespacing wrapper (PrefixedMechanism)\<close>

text \<open>
  \<^verbatim>\<open>goog.storage.mechanism.PrefixedMechanism\<close> decorates an iterable storage mechanism.
  The wrapped mechanism is an external collaborator: it is taken as a parameter, a bundle
  of its operations over some store type \<open>'st\<close>. Keys and values are strings.
\<close>

record 'st iterable_mechanism =
  mech_set :: "string \<Rightarrow> string \<Rightarrow> 'st \<Rightarrow> 'st"
  mech_get :: "string \<Rightarrow> 'st \<Rightarrow> string option"
  mech_remove :: "string \<Rightarrow> 'st \<Rightarrow> 'st"
  mech_keys :: "'st \<Rightarrow> string list"

text \<open>
  Modelled from the spec: the IterableStore capability (\<open>set\<close>, \<open>get -> value|null\<close>,
  \<open>remove\<close>, iteration), whose implementations are not part of the wrapper's file.
  \<open>mech_get\<close> returns \<open>None\<close> for JavaScript's \<open>null\<close>; \<open>mech_keys\<close> is the finite
  sequence of raw keys that the mechanism's own iterator produces, in its order.
  \<open>alist_mechanism\<close> is one such store, an association list, used to run the wrapper.
\<close>

definition alist_mechanism :: "(string \<times> string) list iterable_mechanism" where
  "alist_mechanism =
     \<lparr> mech_set = (\<lambda>k v st. AList.update k v st),
       mech_get = (\<lambda>k st. map_of st k),
       mech_remove = (\<lambda>k st. AList.delete k st),
       mech_keys = (\<lambda>st. map fst st) \<rparr>"

record 'st prefixed_mechanism =
  pm_mechanism :: "'st iterable_mechanism"
  pm_prefix :: string

text \<open>The constructor stores \<open>prefix + '::'\<close>.\<close>

definition PrefixedMechanism :: "'st iterable_mechanism \<Rightarrow> string \<Rightarrow> 'st prefixed_mechanism" where
  "PrefixedMechanism mechanism pfx = \<lparr> pm_mechanism = mechanism, pm_prefix = pfx @ ''::'' \<rparr>"

definition pm_set :: "'st prefixed_mechanism \<Rightarrow> string \<Rightarrow> string \<Rightarrow> 'st \<Rightarrow> 'st" where
  "pm_set this key val st = mech_set (pm_mechanism this) (pm_prefix this @ key) val st"

definition pm_get :: "'st prefixed_mechanism \<Rightarrow> string \<Rightarrow> 'st \<Rightarrow> string option" where
  "pm_get this key st = mech_get (pm_mechanism this) (pm_prefix this @ key) st"

definition pm_remove :: "'st prefixed_mechanism \<Rightarrow> string \<Rightarrow> 'st \<Rightarrow> 'st" where
  "pm_remove this key st = mech_remove (pm_mechanism this) (pm_prefix this @ key) st"

text \<open>
  An ES6 iterator result: \<open>{done: true}\<close> or \<open>{done: false, value: v}\<close>. The wrapper's
  iterator yields either a de-prefixed key or whatever the mechanism's \<open>get\<close> returns
  (a string or \<open>null\<close>), so its values are \<open>string option\<close>.
\<close>

datatype 'a iter_result = Done | Yield 'a

text \<open>The mechanism's iterator \<open>subIter\<close>: its state is the raw keys still to come.\<close>

fun subIter_next :: "string list \<Rightarrow> string iter_result \<times> string list" where
  "subIter_next [] = (Done, [])"
| "subIter_next (k # ks) = (Yield k, ks)"

lemma subIter_next_shorter:
  "(Yield key, sub') = subIter_next sub \<Longrightarrow> length sub' < length sub"
  by (cases sub) auto

text \<open>
  \<open>newIter.next\<close>: take the next raw key; while it does not begin with the prefix
  (\<open>key.substr(0, prefix_.length) != prefix_\<close>) take another; return the exhausted result
  as soon as the mechanism's iterator is done; otherwise yield the key without the prefix
  (\<open>opt_keys\<close>) or the mechanism's value for the raw key.
\<close>

function newIter_next ::
  "'st prefixed_mechanism \<Rightarrow> bool \<Rightarrow> 'st \<Rightarrow> string list \<Rightarrow> string option iter_result \<times> string list"
where
  "newIter_next this opt_keys st sub =
     (case subIter_next sub of
        (Done, sub') \<Rightarrow> (Done, sub')
      | (Yield key, sub') \<Rightarrow>
          if take (length (pm_prefix this)) key \<noteq> pm_prefix this
          then newIter_next this opt_keys st sub'
          else (Yield (if opt_keys then Some (drop (length (pm_prefix this)) key)
                       else mech_get (pm_mechanism this) key st), sub'))"
  by pat_completeness auto
termination
  by (relation "measure (\<lambda>(this, opt_keys, st, sub). length sub)")
     (auto dest: subIter_next_shorter)

declare newIter_next.simps [simp del]

lemma newIter_next_Nil [simp]: "newIter_next this opt_keys st [] = (Done, [])"
  by (simp add: newIter_next.simps)

lemma newIter_next_Cons [simp]:
  "newIter_next this opt_keys st (key # rest) =
     (if take (length (pm_prefix this)) key \<noteq> pm_prefix this
      then newIter_next this opt_keys st rest
      else (Yield (if opt_keys then Some (drop (length (pm_prefix this)) key)
                   else mech_get (pm_mechanism this) key st), rest))"
  by (subst newIter_next.simps) simp

text \<open>
  Driving the iterator to exhaustion (what a \<open>for ... of\<close> loop or \<open>goog.iter.toArray\<close>
  does): call \<open>next\<close> until it reports done, collecting the yielded values.
\<close>

lemma newIter_next_shorter:
  "newIter_next this opt_keys st sub = (Yield v, sub') \<Longrightarrow> length sub' < length sub"
proof (induction sub arbitrary: sub' v)
  case Nil
  then show ?case by simp
next
  case (Cons key rest)
  then show ?case by (fastforce split: if_splits)
qed

function pm_iterate ::
  "'st prefixed_mechanism \<Rightarrow> bool \<Rightarrow> 'st \<Rightarrow> string list \<Rightarrow> string option list"
where
  "pm_iterate this opt_keys st sub =
     (case newIter_next this opt_keys st sub of
        (Done, sub') \<Rightarrow> []
      | (Yield v, sub') \<Rightarrow> v # pm_iterate this opt_keys st sub')"
  by pat_completeness auto
termination
  by (relation "measure (\<lambda>(this, opt_keys, st, sub). length sub)")
     (auto dest: newIter_next_shorter [OF sym])

declare pm_iterate.simps [simp del]

text \<open>\<open>__iterator__(opt_keys)\<close> starts from a fresh iterator of the mechanism.\<close>

definition pm_iterator :: "'st prefixed_mechanism \<Rightarrow> bool \<Rightarrow> 'st \<Rightarrow> string option list" where
  "pm_iterator this opt_keys st = pm_iterate this opt_keys st (mech_keys (pm_mechanism this) st)"

section \<open>The script loader (goog.net.jsloader)\<close>

subsection \<open>Values, options and completion handles\<close>

text \<open>
  URIs and verification-object names are strings. \<open>jsval\<close> holds the JavaScript values the
  loader passes around: \<open>undefined\<close>, \<open>null\<close>, a \<open>goog.net.jsloader.Error\<close> with its code, any
  other thrown exception, a reference to a Deferred (its index in the heap of Deferred
  objects), and a verification object (any other value, kept as an opaque string).
\<close>

type_synonym uri = string

datatype ErrorCode = LOAD_ERROR | TIMEOUT | VERIFY_ERROR | VERIFY_OBJECT_ALREADY_EXISTS

datatype jsval =
    Undefined
  | Null
  | Error ErrorCode
  | Exception string
  | Ref nat
  | Obj string

text \<open>
  \<open>goog.net.jsloader.Options\<close>: \<open>timeout\<close> and \<open>cleanupWhenDone\<close> may be absent. The
  \<open>document\<close> and \<open>attributes\<close> options only choose where the script tag goes and what
  extra attributes it carries; the model has one document and leaves them out.
\<close>

record Options =
  timeout :: "int option"
  cleanupWhenDone :: "bool option"

definition DEFAULT_TIMEOUT :: int where
  "DEFAULT_TIMEOUT = 5000"

text \<open>
  The functions that the loader registers on Deferreds, as closures with their captured
  variables: \<open>popAndLoadNextScript\<close> (captures \<open>opt_options\<close>; its \<open>trustedUris\<close> is the
  global queue), the two anonymous functions of \<open>safeLoadAndVerify\<close> (capture the
  verification name and the wrapping Deferred), and the continuation that a Deferred
  registers on the Deferred it waits for (\<open>goog.bind(this.continue_, this, isSuccess)\<close>).
\<close>

datatype callback =
    PopAndLoadNextScript "Options option"
  | Continue nat bool
  | VerifyCallback string nat
  | VerifyErrback string nat

text \<open>
  Modelled from the spec: the completion handle, \<open>goog.async.Deferred\<close>, whose file is not
  among the sources ("an object representing a pending asynchronous result with
  success/failure callback registration"). A Deferred holds whether it has fired, whether
  its current result is an error, the result, whether it is waiting for another Deferred
  that one of its callbacks returned (\<open>blocked\<close>), whether another Deferred waits for it
  (\<open>blocking\<close>), and the (callback, errback) pairs still to run, in registration order.
\<close>

record Deferred =
  fired :: bool
  hadError :: bool
  result :: jsval
  blocked :: bool
  blocking :: bool
  sequence :: "(callback option \<times> callback option) list"

definition new_Deferred :: Deferred where
  "new_Deferred = \<lparr> fired = False, hadError = False, result = Undefined, blocked = False,
                      blocking = False, sequence = [] \<rparr>"

text \<open>
  The host side of one load: the injected script element with the state of the request the
  loader's closures share. \<open>handlers\<close> holds while \<open>onload\<close>, \<open>onreadystatechange\<close> and
  \<open>onerror\<close> are the loader's functions (\<open>cleanup_\<close> replaces them by
  \<open>goog.nullFunction\<close>); \<open>timer\<close> holds while the load's timeout timer is armed;
  \<open>cleanupOption\<close> is \<open>options.cleanupWhenDone || false\<close>; \<open>inDocument\<close> holds while the
  node is a child of the document; \<open>request\<close> is the load's Deferred.
\<close>

record script =
  src :: uri
  handlers :: bool
  timer :: bool
  cleanupOption :: bool
  inDocument :: bool
  request :: nat

text \<open>
  The loader's state: the module globals \<open>scriptsToLoad_\<close> and \<open>scriptLoadingDeferred_\<close>
  (undefined at first), the heap of Deferred objects and the script elements in creation
  order, the pending zero-delay tasks that \<open>cleanup_\<close> schedules to remove a node, and the
  verification registry \<open>goog.global['closure_verification']\<close> (a name that is not in the
  map reads as \<open>undefined\<close>).
\<close>

record jsloader =
  scriptsToLoad :: "uri list"
  scriptLoadingDeferred :: jsval
  heap :: "Deferred list"
  scripts :: "script list"
  removals :: "nat list"
  verifyObjs :: "string \<rightharpoonup> string"

definition init :: jsloader where
  "init = \<lparr> scriptsToLoad = [], scriptLoadingDeferred = Undefined, heap = [], scripts = [],
            removals = [], verifyObjs = Map.empty \<rparr>"

subsection \<open>Deferred: registering callbacks and firing\<close>

text \<open>
  \<open>alloc\<close> is \<open>new goog.async.Deferred\<close>; \<open>push\<close> appends a (callback, errback) pair to a
  Deferred's sequence; \<open>updateResult\<close> records a result (\<open>updateResult_\<close>, before it
  calls \<open>fire_\<close>).
\<close>

definition alloc :: "Deferred \<Rightarrow> jsloader \<Rightarrow> nat \<times> jsloader" where
  "alloc D s = (length (heap s), s\<lparr>heap := heap s @ [D]\<rparr>)"

definition push :: "nat \<Rightarrow> callback option \<times> callback option \<Rightarrow> jsloader \<Rightarrow> jsloader" where
  "push d entry s =
     (if d < length (heap s)
      then s\<lparr>heap := (heap s)[d := (heap s ! d)\<lparr>sequence := sequence (heap s ! d) @ [entry]\<rparr>]\<rparr>
      else s)"

definition updateResult :: "nat \<Rightarrow> bool \<Rightarrow> jsval \<Rightarrow> jsloader \<Rightarrow> jsloader" where
  "updateResult d isSuccess res s =
     (if d < length (heap s)
      then s\<lparr>heap := (heap s)[d := (heap s ! d)\<lparr>fired := True, result := res,
                                                  hadError := \<not> isSuccess\<rparr>]\<rparr>
      else s)"

definition hasFired :: "jsloader \<Rightarrow> nat \<Rightarrow> bool" where
  "hasFired s d = (d < length (heap s) \<and> fired (heap s ! d))"

subsection \<open>safeLoad and popAndLoadNextScript\<close>

text \<open>
  \<open>safeLoad\<close> creates the script element and the request's Deferred, arms the timeout timer
  when the effective duration (\<open>options.timeout\<close>, or \<open>DEFAULT_TIMEOUT\<close> when that is
  \<open>null\<close> or absent) is positive, installs the handlers, appends the node to the document
  and returns the Deferred.
\<close>

definition safeLoad :: "uri \<Rightarrow> Options option \<Rightarrow> jsloader \<Rightarrow> nat \<times> jsloader" where
  "safeLoad trustedUri opt_options s =
     (let options = (case opt_options of None \<Rightarrow> \<lparr>timeout = None, cleanupWhenDone = None\<rparr>
                     | Some opts \<Rightarrow> opts);
          (deferred, s1) = alloc new_Deferred s;
          timeoutDuration = (case timeout options of Some t \<Rightarrow> t | None \<Rightarrow> DEFAULT_TIMEOUT);
          node = \<lparr> src = trustedUri, handlers = True, timer = (timeoutDuration > 0),
                   cleanupOption = (case cleanupWhenDone options of Some b \<Rightarrow> b | None \<Rightarrow> False),
                   inDocument = True, request = deferred \<rparr>
      in (deferred, s1\<lparr>scripts := scripts s1 @ [node]\<rparr>))"

text \<open>
  \<open>popAndLoadNextScript\<close>: shift the first URI off the queue, load it, and register this
  same function for both outcomes of the load when the queue is still non-empty. On an empty
  queue \<open>shift()\<close> gives \<open>undefined\<close> and unwrapping it throws: \<open>None\<close>.
\<close>

definition popAndLoadNextScript :: "Options option \<Rightarrow> jsloader \<Rightarrow> (nat \<times> jsloader) option" where
  "popAndLoadNextScript opt_options s =
     (case scriptsToLoad s of
        [] \<Rightarrow> None
      | trustedUri # rest \<Rightarrow>
          let (deferred, s1) = safeLoad trustedUri opt_options (s\<lparr>scriptsToLoad := rest\<rparr>)
          in Some (deferred,
                   if scriptsToLoad s1 \<noteq> []
                   then push deferred (Some (PopAndLoadNextScript opt_options),
                                       Some (PopAndLoadNextScript opt_options)) s1
                   else s1))"

subsection \<open>Running the callbacks of a fired Deferred\<close>

text \<open>
  A callback returns a value, having possibly fired other Deferreds (which then run their
  own callbacks), or throws. \<open>settle\<close> is the common part of \<open>callback(v)\<close> and
  \<open>errback(v)\<close>: it throws (\<open>None\<close>) when the Deferred has already fired, and otherwise
  records the result and names the Deferred as one to run.
\<close>

datatype completion = Returned jsval "nat list" | Threw jsval

definition settle :: "nat \<Rightarrow> bool \<Rightarrow> jsval \<Rightarrow> jsloader \<Rightarrow> (nat list \<times> jsloader) option" where
  "settle d isSuccess res s =
     (if hasFired s d then None else Some ([d], updateResult d isSuccess res s))"

text \<open>
  The bodies of the four closures. The success callback of \<open>safeLoadAndVerify\<close> reads the
  named slot; when it is defined it fires the wrapping Deferred with the value and deletes
  the slot, and otherwise it fails the wrapping Deferred with \<open>VERIFY_ERROR\<close>. Its errback
  deletes the slot when defined and passes the error on. A continuation unblocks the waiting
  Deferred and gives it the result. A Deferred that a closure fires runs its own callbacks
  when the closure has returned; the loader registers none on the wrapping Deferred, so for
  the loader this is the nested call of the source.
\<close>

fun run_callback :: "callback \<Rightarrow> jsval \<Rightarrow> jsloader \<Rightarrow> completion \<times> jsloader" where
  "run_callback (PopAndLoadNextScript opt_options) res s =
     (case popAndLoadNextScript opt_options s of
        None \<Rightarrow> (Threw (Exception ''unwrap''), s)
      | Some (deferred, s1) \<Rightarrow> (Returned (Ref deferred) [], s1))"
| "run_callback (Continue p isSuccess) res s =
     (if p < length (heap s)
      then (Returned Undefined [p],
            updateResult p isSuccess res
              (s\<lparr>heap := (heap s)[p := (heap s ! p)\<lparr>blocked := False\<rparr>]\<rparr>))
      else (Returned Undefined [], s))"
| "run_callback (VerifyCallback verificationObjName deferred) res s =
     (case verifyObjs s verificationObjName of
        Some v \<Rightarrow>
          (case settle deferred True (Obj v) s of
             None \<Rightarrow> (Threw (Exception ''AlreadyCalledError''), s)
           | Some (wake, s1) \<Rightarrow>
               (Returned Undefined wake,
                s1\<lparr>verifyObjs := (verifyObjs s1)(verificationObjName := None)\<rparr>))
      | None \<Rightarrow>
          (case settle deferred False (Error VERIFY_ERROR) s of
             None \<Rightarrow> (Threw (Exception ''AlreadyCalledError''), s)
           | Some (wake, s1) \<Rightarrow> (Returned Undefined wake, s1)))"
| "run_callback (VerifyErrback verificationObjName deferred) res s =
     (let s1 = (if verifyObjs s verificationObjName \<noteq> None
                then s\<lparr>verifyObjs := (verifyObjs s)(verificationObjName := None)\<rparr> else s)
      in case settle deferred False res s1 of
           None \<Rightarrow> (Threw (Exception ''AlreadyCalledError''), s1)
         | Some (wake, s2) \<Rightarrow> (Returned Undefined wake, s2))"

text \<open>
  One turn of the loop of \<open>fire_\<close> on Deferred \<open>d\<close>, which runs while the sequence is
  non-empty and the Deferred is not blocked (\<open>runnable\<close>): take the first pair, choose the
  errback or the callback by \<open>hadError\<close>, skip an absent one, run the chosen one. A thrown
  exception becomes the result, as an error. A returned value other than \<open>undefined\<close>
  becomes the result, and the error state is kept only if the value is the old result or an
  error. When the value is a Deferred, \<open>d\<close> becomes blocked and registers its continuation
  on that Deferred (\<open>blockOn\<close>). The result of a Deferred that runs its callbacks is never
  itself a Deferred unless a callback has just returned one: \<open>callback\<close> and \<open>errback\<close>
  are not given one, and a blocked Deferred runs nothing. The step returns the Deferreds
  that were fired meanwhile and still have to run their callbacks.
\<close>

definition runnable :: "jsloader \<Rightarrow> nat \<Rightarrow> bool" where
  "runnable s d = (d < length (heap s) \<and> \<not> blocked (heap s ! d) \<and> sequence (heap s ! d) \<noteq> [])"

definition isError :: "jsval \<Rightarrow> bool" where
  "isError v = (case v of Error c \<Rightarrow> True | Exception m \<Rightarrow> True | _ \<Rightarrow> False)"

definition setBlocking :: "nat \<Rightarrow> jsloader \<Rightarrow> jsloader" where
  "setBlocking d s =
     (if d < length (heap s)
      then s\<lparr>heap := (heap s)[d := (heap s ! d)\<lparr>blocking := True\<rparr>]\<rparr>
      else s)"

definition blockOn :: "nat \<Rightarrow> nat \<Rightarrow> jsloader \<Rightarrow> nat list \<times> jsloader" where
  "blockOn d inner s =
     (let s1 = s\<lparr>heap := (heap s)[d := (heap s ! d)
                     \<lparr>result := Ref inner, hadError := False, blocked := True\<rparr>]\<rparr>;
          s2 = setBlocking inner
                 (push inner (Some (Continue d True), Some (Continue d False)) s1)
      in (if hasFired s2 inner then [inner] else [], s2))"

definition fire_step :: "nat \<Rightarrow> jsloader \<Rightarrow> nat list \<times> jsloader" where
  "fire_step d s =
     (let D = heap s ! d;
          res = result D;
          (cb, eb) = hd (sequence D);
          s1 = s\<lparr>heap := (heap s)[d := D\<lparr>sequence := tl (sequence D)\<rparr>]\<rparr>;
          f = (if hadError D then eb else cb)
      in case f of
           None \<Rightarrow> ([], s1)
         | Some c \<Rightarrow>
             (case run_callback c res s1 of
                (Threw ex, s2) \<Rightarrow>
                  ([], s2\<lparr>heap := (heap s2)[d := (heap s2 ! d)\<lparr>result := ex, hadError := True\<rparr>]\<rparr>)
              | (Returned ret wake, s2) \<Rightarrow>
                  (case ret of
                     Undefined \<Rightarrow> (wake, s2)
                   | Ref inner \<Rightarrow>
                       (case blockOn d inner s2 of (wake', s3) \<Rightarrow> (wake @ wake', s3))
                   | _ \<Rightarrow>
                       (wake, s2\<lparr>heap := (heap s2)[d := (heap s2 ! d)
                                   \<lparr>result := ret,
                                    hadError := (hadError (heap s2 ! d) \<and> (ret = res \<or> isError ret))\<rparr>]\<rparr>))))"

text \<open>
  \<open>fire\<close> runs the loop: the Deferreds fired by a callback run their callbacks before the
  current one goes on, as the nested calls of \<open>fire_\<close> do. Every turn consumes a registered
  pair; only \<open>popAndLoadNextScript\<close> registers new ones (at most two, for one queue entry
  less), so the loop ends.
\<close>

definition potential :: "jsloader \<Rightarrow> nat" where
  "potential s = sum_list (map (\<lambda>D. length (sequence D)) (heap s)) + 2 * length (scriptsToLoad s)"

lemma sum_list_update_same:
  "d < length h \<Longrightarrow> f D = f (h ! d) \<Longrightarrow> sum_list (map f (h[d := D])) = sum_list (map f h)"
  by (simp add: map_update list_update_same_conv [THEN iffD2])

lemma sum_list_update_nat:
  fixes f :: "'a \<Rightarrow> nat"
  shows "d < length h \<Longrightarrow> sum_list (map f (h[d := D])) + f (h ! d) = sum_list (map f h) + f D"
  by (induction h arbitrary: d) (auto split: nat.splits)

lemma potential_updateResult [simp]: "potential (updateResult d b v s) = potential s"
  by (simp add: potential_def updateResult_def sum_list_update_same)

lemma potential_push: "potential (push d e s) \<le> potential s + 1"
  using sum_list_update_nat [of d "heap s" "\<lambda>D. length (sequence D)"
      "(heap s ! d)\<lparr>sequence := sequence (heap s ! d) @ [e]\<rparr>"]
  by (auto simp: potential_def push_def)

lemma potential_safeLoad: "potential (snd (safeLoad u opts s)) = potential s"
  by (simp add: safeLoad_def alloc_def potential_def new_Deferred_def Let_def split: prod.splits)

lemma potential_pop:
  "popAndLoadNextScript opts s = Some (d, s') \<Longrightarrow> potential s' + 1 \<le> potential s"
proof -
  assume a: "popAndLoadNextScript opts s = Some (d, s')"
  then obtain u rest where q: "scriptsToLoad s = u # rest"
    by (auto simp: popAndLoadNextScript_def split: list.splits)
  obtain d1 s1 where sl: "safeLoad u opts (s\<lparr>scriptsToLoad := rest\<rparr>) = (d1, s1)"
    by (cases "safeLoad u opts (s\<lparr>scriptsToLoad := rest\<rparr>)")
  have p1: "potential s1 = potential (s\<lparr>scriptsToLoad := rest\<rparr>)"
    using potential_safeLoad [of u opts "s\<lparr>scriptsToLoad := rest\<rparr>"] sl by simp
  have p0: "potential (s\<lparr>scriptsToLoad := rest\<rparr>) + 2 = potential s"
    using q by (simp add: potential_def)
  have "s' = (if scriptsToLoad s1 \<noteq> []
              then push d1 (Some (PopAndLoadNextScript opts), Some (PopAndLoadNextScript opts)) s1
              else s1)"
    using a q sl by (simp add: popAndLoadNextScript_def)
  then have "potential s' \<le> potential s1 + 1"
    using potential_push [of d1 _ s1] by (auto split: if_splits)
  with p1 p0 show ?thesis by linarith
qed

lemma potential_settle: "settle d b v s = Some (w, s') \<Longrightarrow> potential s' = potential s"
  by (auto simp: settle_def split: if_splits)

lemma potential_run_callback:
  "run_callback c res s = (r, s') \<Longrightarrow>
     potential s' \<le> potential s \<and> (\<forall>v w. r = Returned (Ref v) w \<longrightarrow> potential s' + 1 \<le> potential s)"
proof (cases c)
  case (PopAndLoadNextScript opts)
  assume "run_callback c res s = (r, s')"
  with PopAndLoadNextScript show ?thesis
    by (auto split: option.splits dest: potential_pop)
next
  case (Continue p b)
  assume "run_callback c res s = (r, s')"
  with Continue show ?thesis
    by (auto simp: potential_def updateResult_def sum_list_update_same split: if_splits)
next
  case (VerifyCallback n w)
  assume "run_callback c res s = (r, s')"
  with VerifyCallback show ?thesis
    by (auto simp: potential_def split: option.splits dest!: potential_settle)
next
  case (VerifyErrback n w)
  assume "run_callback c res s = (r, s')"
  with VerifyErrback show ?thesis
    by (auto simp: potential_def Let_def split: option.splits if_splits dest!: potential_settle)
qed

lemma potential_blockOn: "blockOn d inner s = (w, s') \<Longrightarrow> potential s' \<le> potential s + 1"
proof -
  assume a: "blockOn d inner s = (w, s')"
  define s1 where "s1 = s\<lparr>heap := (heap s)[d := (heap s ! d)
                     \<lparr>result := Ref inner, hadError := False, blocked := True\<rparr>]\<rparr>"
  have "potential s1 = potential s"
    by (cases "d < length (heap s)")
       (simp_all add: s1_def potential_def sum_list_update_same list_update_beyond)
  moreover have "potential (setBlocking i t) = potential t" for i t
    by (simp add: setBlocking_def potential_def sum_list_update_same)
  moreover have "s' = setBlocking inner
                 (push inner (Some (Continue d True), Some (Continue d False)) s1)"
    using a by (auto simp: blockOn_def Let_def s1_def)
  ultimately show ?thesis
    using potential_push [of inner "(Some (Continue d True), Some (Continue d False))" s1] by simp
qed

lemma potential_fire_step:
  assumes "runnable s d" and "fire_step d s = (wake, s')"
  shows "potential s' < potential s"
proof -
  define D where "D = heap s ! d"
  define s1 where "s1 = s\<lparr>heap := (heap s)[d := D\<lparr>sequence := tl (sequence D)\<rparr>]\<rparr>"
  from assms(1) have d: "d < length (heap s)" and ne: "sequence D \<noteq> []"
    by (simp_all add: runnable_def D_def)
  have p1: "potential s1 + 1 = potential s"
    using sum_list_update_nat [OF d, of "\<lambda>D. length (sequence D)" "D\<lparr>sequence := tl (sequence D)\<rparr>"] ne
    by (cases "sequence D") (simp_all add: potential_def s1_def D_def)
  obtain cb eb where hd: "hd (sequence D) = (cb, eb)" by (cases "hd (sequence D)")
  define f where "f = (if hadError D then eb else cb)"
  show ?thesis
  proof (cases f)
    case None
    with assms(2) hd p1 show ?thesis
      by (auto simp add: fire_step_def D_def [symmetric] s1_def [symmetric] f_def [symmetric] Let_def)
  next
    case (Some c)
    obtain r s2 where rc: "run_callback c (result D) s1 = (r, s2)"
      by (cases "run_callback c (result D) s1")
    note pr = potential_run_callback [OF rc]
    have upd: "potential (s2\<lparr>heap := (heap s2)[d := (heap s2 ! d)\<lparr>result := x, hadError := y\<rparr>]\<rparr>)
                 = potential s2" for x y
      by (cases "d < length (heap s2)")
         (simp_all add: potential_def sum_list_update_same list_update_beyond)
    show ?thesis
    proof (cases r)
      case (Threw ex)
      with assms(2) hd Some rc pr p1 upd show ?thesis
        by (auto simp add: fire_step_def D_def [symmetric] s1_def [symmetric] f_def [symmetric] Let_def)
    next
      case (Returned ret wk)
      show ?thesis
      proof (cases ret)
        case (Ref inner)
        with Returned pr have le: "potential s2 + 1 \<le> potential s1" by simp
        obtain w3 s3 where b: "blockOn d inner s2 = (w3, s3)" by (cases "blockOn d inner s2")
        have "s' = s3"
          using assms(2) hd Some rc Returned Ref b
          by (simp add: fire_step_def D_def [symmetric] s1_def [symmetric] f_def [symmetric] Let_def)
        with potential_blockOn [OF b] le p1 show ?thesis by simp
      qed (use assms(2) hd Some rc Returned pr p1 upd in
            \<open>auto simp add: fire_step_def D_def [symmetric] s1_def [symmetric] f_def [symmetric] Let_def\<close>)
    qed
  qed
qed

function fire :: "nat list \<Rightarrow> jsloader \<Rightarrow> jsloader" where
  "fire [] s = s"
| "fire (d # work) s =
     (if runnable s d
      then (case fire_step d s of (wake, s') \<Rightarrow> fire (wake @ d # work) s')
      else fire work s)"
  by pat_completeness auto
termination
  by (relation "measures [\<lambda>(work, s). potential s, \<lambda>(work, s). length work]")
     (auto dest: potential_fire_step [OF _ sym])

declare fire.simps [simp del]

text \<open>
  \<open>callback\<close> and \<open>errback\<close> fire a Deferred; on one that has already fired they throw
  \<open>AlreadyCalledError\<close> to the caller and change nothing. \<open>succeed\<close> and \<open>fail\<close> are
  \<open>goog.async.Deferred.succeed\<close> and \<open>.fail\<close>; \<open>addCallbacks\<close> registers a pair and runs it
  at once on a Deferred that has fired.
\<close>

definition callback :: "nat \<Rightarrow> jsval \<Rightarrow> jsloader \<Rightarrow> jsloader" where
  "callback d v s = (case settle d True v s of None \<Rightarrow> s | Some (wake, s1) \<Rightarrow> fire wake s1)"

definition errback :: "nat \<Rightarrow> jsval \<Rightarrow> jsloader \<Rightarrow> jsloader" where
  "errback d v s = (case settle d False v s of None \<Rightarrow> s | Some (wake, s1) \<Rightarrow> fire wake s1)"

definition succeed :: "jsval \<Rightarrow> jsloader \<Rightarrow> nat \<times> jsloader" where
  "succeed v s = (case alloc new_Deferred s of (d, s1) \<Rightarrow> (d, callback d v s1))"

definition fail :: "jsval \<Rightarrow> jsloader \<Rightarrow> nat \<times> jsloader" where
  "fail v s = (case alloc new_Deferred s of (d, s1) \<Rightarrow> (d, errback d v s1))"

definition addCallbacks :: "nat \<Rightarrow> callback option \<Rightarrow> callback option \<Rightarrow> jsloader \<Rightarrow> jsloader" where
  "addCallbacks d cb eb s =
     (let s1 = push d (cb, eb) s in if hasFired s1 d then fire [d] s1 else s1)"

subsection \<open>safeLoadMany and safeLoadAndVerify\<close>

text \<open>
  \<open>safeLoadMany\<close>: an empty list gives an already-successful Deferred. Otherwise the URIs
  are appended to the queue; if the queue was non-empty before (\<open>isAnotherModuleLoading\<close>)
  the stored Deferred is returned, and if it was empty the first URI is popped and loaded
  and the Deferred of that load is stored and returned.
\<close>

definition safeLoadMany :: "uri list \<Rightarrow> Options option \<Rightarrow> jsloader \<Rightarrow> jsval \<times> jsloader" where
  "safeLoadMany trustedUris opt_options s =
     (if trustedUris = [] then (case succeed Null s of (d, s1) \<Rightarrow> (Ref d, s1))
      else
        let isAnotherModuleLoading = (scriptsToLoad s \<noteq> []);
            s1 = s\<lparr>scriptsToLoad := scriptsToLoad s @ trustedUris\<rparr>
        in if isAnotherModuleLoading then (scriptLoadingDeferred s1, s1)
           else (case popAndLoadNextScript opt_options s1 of
                   None \<Rightarrow> (Undefined, s1)
                 | Some (d, s2) \<Rightarrow> (Ref d, s2\<lparr>scriptLoadingDeferred := Ref d\<rparr>)))"

text \<open>
  \<open>safeLoadAndVerify\<close>: fail at once when the named slot is already defined; otherwise load
  the script and return a new Deferred that the callbacks of the load's Deferred settle.
\<close>

definition safeLoadAndVerify ::
  "uri \<Rightarrow> string \<Rightarrow> Options option \<Rightarrow> jsloader \<Rightarrow> nat \<times> jsloader" where
  "safeLoadAndVerify trustedUri verificationObjName options s =
     (if verifyObjs s verificationObjName \<noteq> None
      then fail (Error VERIFY_OBJECT_ALREADY_EXISTS) s
      else
        let (sendDeferred, s1) = safeLoad trustedUri options s;
            (deferred, s2) = alloc new_Deferred s1;
            s3 = addCallbacks sendDeferred (Some (VerifyCallback verificationObjName deferred)) None s2;
            s4 = addCallbacks sendDeferred None (Some (VerifyErrback verificationObjName deferred)) s3
        in (deferred, s4))"

subsection \<open>cleanup_ and the host's events\<close>

text \<open>
  \<open>cleanup_(scriptNode, removeScriptNode, opt_timeout)\<close>: clear the timer when a handle is
  passed, replace the three handlers by \<open>goog.nullFunction\<close>, and when asked to remove the
  node schedule \<open>goog.dom.removeNode\<close> in a zero-delay timer. The load and error handlers pass
  the load's own handle, which is \<open>null\<close> when no timer was armed; clearing a timer that is not
  armed changes nothing, so the flag is passed as true there.
\<close>

definition cleanup :: "nat \<Rightarrow> bool \<Rightarrow> bool \<Rightarrow> jsloader \<Rightarrow> jsloader" where
  "cleanup scriptNode removeScriptNode opt_timeout s =
     (let node = scripts s ! scriptNode;
          node1 = (if opt_timeout then node\<lparr>timer := False\<rparr> else node);
          s1 = s\<lparr>scripts := (scripts s)[scriptNode := node1\<lparr>handlers := False\<rparr>]\<rparr>
      in if removeScriptNode then s1\<lparr>removals := removals s1 @ [scriptNode]\<rparr> else s1)"

text \<open>
  What the host can do to a load: fire \<open>onload\<close>/\<open>onreadystatechange\<close> with the element's
  \<open>readyState\<close> (absent, \<open>'loaded'\<close>, \<open>'complete'\<close>, or anything else), fire \<open>onerror\<close>,
  let the load's timeout timer expire, and run a scheduled removal of a node. A handler that
  \<open>cleanup_\<close> has replaced does nothing, and a timer that is not armed does not fire.
\<close>

datatype readyState = NoReadyState | Loaded | Complete | OtherReadyState

datatype event =
    Onload nat readyState
  | Onerror nat
  | TimeoutFires nat
  | RemoveNodeTask nat

fun host :: "event \<Rightarrow> jsloader \<Rightarrow> jsloader" where
  "host (Onload n rs) s =
     (if n < length (scripts s) \<and> handlers (scripts s ! n)
      then (if rs = NoReadyState \<or> rs = Loaded \<or> rs = Complete
            then callback (request (scripts s ! n)) Null
                   (cleanup n (cleanupOption (scripts s ! n)) True s)
            else s)
      else s)"
| "host (Onerror n) s =
     (if n < length (scripts s) \<and> handlers (scripts s ! n)
      then errback (request (scripts s ! n)) (Error LOAD_ERROR) (cleanup n True True s)
      else s)"
| "host (TimeoutFires n) s =
     (if n < length (scripts s) \<and> timer (scripts s ! n)
      then errback (request (scripts s ! n)) (Error TIMEOUT)
             (cleanup n True False
                (s\<lparr>scripts := (scripts s)[n := (scripts s ! n)\<lparr>timer := False\<rparr>]\<rparr>))
      else s)"
| "host (RemoveNodeTask n) s =
     (if n \<in> set (removals s) \<and> n < length (scripts s)
      then s\<lparr>removals := remove1 n (removals s),
             scripts := (scripts s)[n := (scripts s ! n)\<lparr>inDocument := False\<rparr>]\<rparr>
      else s)"

text \<open>
  A run of the queue: calls of \<open>safeLoadMany\<close> interleaved with the host's events, from the
  initial state.
\<close>

datatype action = CallSafeLoadMany "uri list" "Options option" | Host event

fun step :: "jsloader \<Rightarrow> action \<Rightarrow> jsloader" where
  "step s (CallSafeLoadMany uris opts) = snd (safeLoadMany uris opts s)"
| "step s (Host e) = host e s"

definition run :: "action list \<Rightarrow> jsloader \<Rightarrow> jsloader" where
  "run as s = foldl step s as"

text \<open>
  What a caller observes on a handle: a callback added to a Deferred runs at once, with the
  current result, exactly when the Deferred has fired and is not blocked.
\<close>

datatype outcome = Pending | Succeeded jsval | Failed jsval

definition outcome :: "jsloader \<Rightarrow> nat \<Rightarrow> outcome" where
  "outcome s d =
     (if d < length (heap s) \<and> fired (heap s ! d) \<and> \<not> blocked (heap s ! d)
      then (if hadError (heap s ! d) then Failed (result (heap s ! d))
            else Succeeded (result (heap s ! d)))
      else Pending)"

subsection \<open>Notions for reasoning about runs of the queue\<close>

text \<open>
  The script element that \<open>safeLoad\<close> creates for a URI, options and Deferred.
\<close>

definition loadNode :: "uri \<Rightarrow> Options option \<Rightarrow> nat \<Rightarrow> script" where
  "loadNode u opts d =
     \<lparr> src = u, handlers = True,
       timer = ((case (case opts of None \<Rightarrow> None | Some opt \<Rightarrow> timeout opt) of
                   Some t \<Rightarrow> t | None \<Rightarrow> DEFAULT_TIMEOUT) > 0),
       cleanupOption = (case (case opts of None \<Rightarrow> None | Some opt \<Rightarrow> cleanupWhenDone opt) of
                          Some b \<Rightarrow> b | None \<Rightarrow> False),
       inDocument = True, request = d \<rparr>"



text \<open>
  The shape of the Deferreds in a run. A registered function is \<open>quiet\<close> when it is
  absent or the continuation of a Deferred that has fired; \<open>popEntry\<close> is what
  \<open>addBoth(popAndLoadNextScript)\<close> registers. A Deferred is \<open>chained\<close> when it is the one
  that will pop the queue: it has not fired, \<open>popAndLoadNextScript\<close> heads its sequence, the
  queue is non-empty, and it belongs to the load issued last. In a well-formed state
  (\<open>wf\<close>) the loads have distinct Deferreds and every Deferred is quiet or chained.
\<close>

fun quietCb :: "jsloader \<Rightarrow> callback option \<Rightarrow> bool" where
  "quietCb s None = True"
| "quietCb s (Some (Continue p b)) = (p < length (heap s) \<and> fired (heap s ! p))"
| "quietCb s (Some c) = False"

definition quiet :: "jsloader \<Rightarrow> (callback option \<times> callback option) list \<Rightarrow> bool" where
  "quiet s es = (\<forall>e \<in> set es. quietCb s (fst e) \<and> quietCb s (snd e))"

definition allquiet :: "jsloader \<Rightarrow> bool" where
  "allquiet s = (\<forall>d < length (heap s). fired (heap s ! d) \<longrightarrow> quiet s (sequence (heap s ! d)))"

definition popEntry :: "Options option \<Rightarrow> callback option \<times> callback option" where
  "popEntry opts = (Some (PopAndLoadNextScript opts), Some (PopAndLoadNextScript opts))"

definition chained :: "jsloader \<Rightarrow> nat \<Rightarrow> bool" where
  "chained s d =
     (\<exists>opts rest. sequence (heap s ! d) = popEntry opts # rest \<and> quiet s rest \<and>
        \<not> fired (heap s ! d) \<and> \<not> blocked (heap s ! d) \<and>
        scriptsToLoad s \<noteq> [] \<and> scripts s \<noteq> [] \<and> request (last (scripts s)) = d)"

definition wf :: "jsloader \<Rightarrow> bool" where
  "wf s =
     ((\<forall>i < length (scripts s). request (scripts s ! i) < length (heap s)) \<and>
      distinct (map request (scripts s)) \<and>
      (\<forall>d < length (heap s). quiet s (sequence (heap s ! d)) \<or> chained s d))"

text \<open>
  \<open>calm s s'\<close>: from \<open>s\<close> to \<open>s'\<close> only Deferreds that had fired changed, they are
  still fired, and their sequences only lost entries; nothing else changed.
\<close>

definition calm :: "jsloader \<Rightarrow> jsloader \<Rightarrow> bool" where
  "calm s s' =
     (scripts s' = scripts s \<and> scriptsToLoad s' = scriptsToLoad s \<and>
      scriptLoadingDeferred s' = scriptLoadingDeferred s \<and> removals s' = removals s \<and>
      length (heap s') = length (heap s) \<and>
      (\<forall>d < length (heap s).
         (fired (heap s ! d) \<longrightarrow>
            fired (heap s' ! d) \<and> set (sequence (heap s' ! d)) \<subseteq> set (sequence (heap s ! d))) \<and>
         (\<not> fired (heap s ! d) \<longrightarrow> heap s' ! d = heap s ! d)))"

text \<open>
  \<open>done_mono s s'\<close>: every load of \<open>s\<close> is still there in \<open>s'\<close> with the same Deferred,
  and a load whose handlers were replaced stays so. \<open>finished\<close>: the Deferred of every load
  whose handlers were replaced has fired. \<open>advance s s'\<close>: what one step of a run
  guarantees: at most one new load, and a new load only when the queue was empty before
  (a fresh call) or as the successor of the load issued last, whose handlers have then been
  replaced. \<open>serial base N\<close>: among the loads at positions \<open>base, ..., base + N - 1\<close> of the
  submission order, one is issued only when its predecessor's handlers have been replaced.
\<close>

definition done_mono :: "jsloader \<Rightarrow> jsloader \<Rightarrow> bool" where
  "done_mono s s' =
     (length (scripts s) \<le> length (scripts s') \<and>
      (\<forall>i < length (scripts s).
         request (scripts s' ! i) = request (scripts s ! i) \<and>
         (\<not> handlers (scripts s ! i) \<longrightarrow> \<not> handlers (scripts s' ! i))))"

definition finished :: "jsloader \<Rightarrow> bool" where
  "finished s =
     (\<forall>i < length (scripts s). \<not> handlers (scripts s ! i) \<longrightarrow> hasFired s (request (scripts s ! i)))"

definition advance :: "jsloader \<Rightarrow> jsloader \<Rightarrow> bool" where
  "advance s s' =
     (wf s' \<and> finished s' \<and> done_mono s s' \<and>
      length (scripts s') \<le> Suc (length (scripts s)) \<and>
      (length (scripts s) < length (scripts s') \<longrightarrow>
         scriptsToLoad s = [] \<or>
         (scripts s \<noteq> [] \<and> \<not> handlers (scripts s' ! (length (scripts s) - 1)))))"


text \<open>
  \<open>grows s s'\<close>: what running callbacks never undoes: the scheduled removals are the
  same, the script elements of \<open>s\<close> are still there, unchanged, at the same positions, and
  every Deferred that had fired is still there and has fired.
\<close>

definition grows :: "jsloader \<Rightarrow> jsloader \<Rightarrow> bool" where
  "grows s s' =
     (removals s' = removals s \<and> prefix (scripts s) (scripts s') \<and>
      length (heap s) \<le> length (heap s') \<and>
      (\<forall>d < length (heap s). fired (heap s ! d) \<longrightarrow> fired (heap s' ! d)))"

text \<open>
  \<open>settledOnly s\<close>: only a Deferred that has fired is blocked (a Deferred becomes blocked
  while it runs its callbacks, which it does after it has fired).
\<close>

definition settledOnly :: "jsloader \<Rightarrow> bool" where
  "settledOnly s = (\<forall>x < length (heap s). blocked (heap s ! x) \<longrightarrow> fired (heap s ! x))"

text \<open>
  \<open>hasSuccessor s d\<close>: \<open>popAndLoadNextScript\<close> is registered on the Deferred \<open>d\<close>; the
  loader registers it (\<open>addBoth\<close>) on the Deferred of a load that it issues while URIs are
  still pending. \<open>waiting s d\<close>: a continuation of \<open>d\<close> is registered on some Deferred,
  that is, \<open>d\<close> waits for a Deferred that one of its callbacks returned.
\<close>

fun isPop :: "callback option \<Rightarrow> bool" where
  "isPop (Some (PopAndLoadNextScript opts)) = True"
| "isPop c = False"

definition hasSuccessor :: "jsloader \<Rightarrow> nat \<Rightarrow> bool" where
  "hasSuccessor s d = (\<exists>e \<in> set (sequence (heap s ! d)). isPop (fst e) \<or> isPop (snd e))"

definition waiting :: "jsloader \<Rightarrow> nat \<Rightarrow> bool" where
  "waiting s d =
     (\<exists>k < length (heap s). \<exists>e \<in> set (sequence (heap s ! k)).
        \<exists>b. fst e = Some (Continue d b) \<or> snd e = Some (Continue d b))"

section \<open>The key encoding of the IE userData mechanism (goog.storage.mechanism.IEUserData)\<close>

text \<open>
  A JavaScript string is a sequence of UTF-16 code units. The model keeps each code unit as
  a natural number; \<open>isString\<close> says that all of them are below \<open>2^16\<close>. Characters are
  written by their codes: \<open>37\<close> is \<open>%\<close>, \<open>46\<close> is \<open>.\<close>, \<open>95\<close> is \<open>_\<close>.
  \<open>encodeURIComponent\<close> and \<open>decodeURIComponent\<close> are built-ins of the language; they
  are modelled after ECMA-262 (the abstract operations Encode and Decode), with \<open>None\<close>
  for a thrown \<open>URIError\<close>.
\<close>

type_synonym jsstring = "nat list"

definition isString :: "jsstring \<Rightarrow> bool" where
  "isString k = (\<forall>c \<in> set k. c < 65536)"

text \<open>
  Hexadecimal digits: \<open>hexDigit\<close> writes a value below 16 as one of \<open>0-9A-F\<close>, \<open>unhex\<close>
  reads a digit in either case.
\<close>

definition hexDigit :: "nat \<Rightarrow> nat" where
  "hexDigit d = (if d < 10 then 48 + d else 55 + d)"

definition unhex :: "nat \<Rightarrow> nat option" where
  "unhex c =
     (if 48 \<le> c \<and> c \<le> 57 then Some (c - 48)
      else if 65 \<le> c \<and> c \<le> 70 then Some (c - 55)
      else if 97 \<le> c \<and> c \<le> 102 then Some (c - 87)
      else None)"

text \<open>
  The code units that \<open>encodeURIComponent\<close> leaves as they are: letters, digits and
  \<open>- _ . ! ~ * ' ( )\<close>.
\<close>

definition alphanumeric :: "nat \<Rightarrow> bool" where
  "alphanumeric c = ((48 \<le> c \<and> c \<le> 57) \<or> (65 \<le> c \<and> c \<le> 90) \<or> (97 \<le> c \<and> c \<le> 122))"

definition uriUnescaped :: "nat \<Rightarrow> bool" where
  "uriUnescaped c = (alphanumeric c \<or> c \<in> set [45, 95, 46, 33, 126, 42, 39, 40, 41])"

text \<open>
  The UTF-8 octets of a code point, and the escape \<open>%XX\<close> of an octet.
\<close>

definition utf8 :: "nat \<Rightarrow> nat list" where
  "utf8 cp =
     (if cp < 128 then [cp]
      else if cp < 2048 then [192 + cp div 64, 128 + cp mod 64]
      else if cp < 65536 then [224 + cp div 4096, 128 + (cp div 64) mod 64, 128 + cp mod 64]
      else [240 + cp div 262144, 128 + (cp div 4096) mod 64, 128 + (cp div 64) mod 64,
            128 + cp mod 64])"

definition percent :: "nat \<Rightarrow> jsstring" where
  "percent b = [37, hexDigit (b div 16), hexDigit (b mod 16)]"

text \<open>
  Surrogates: a lead surrogate followed by a trail surrogate stands for one code point above
  \<open>0xFFFF\<close>; any other surrogate is unpaired.
\<close>

definition leadSurrogate :: "nat \<Rightarrow> bool" where
  "leadSurrogate c = (55296 \<le> c \<and> c \<le> 56319)"

definition trailSurrogate :: "nat \<Rightarrow> bool" where
  "trailSurrogate c = (56320 \<le> c \<and> c \<le> 57343)"

definition pairCodePoint :: "nat \<Rightarrow> nat \<Rightarrow> nat" where
  "pairCodePoint lead trail = (lead - 55296) * 1024 + (trail - 56320) + 65536"

text \<open>
  Encode: an unescaped code unit is copied; otherwise the code point at this position is
  taken (a \<open>URIError\<close> if it is an unpaired surrogate) and each octet of its UTF-8 form is
  written as \<open>%XX\<close>.
\<close>

fun encodeURIComponent :: "jsstring \<Rightarrow> jsstring option" where
  "encodeURIComponent [] = Some []"
| "encodeURIComponent (c # cs) =
     (if uriUnescaped c then map_option ((#) c) (encodeURIComponent cs)
      else if trailSurrogate c then None
      else if leadSurrogate c then
        (case cs of
           [] \<Rightarrow> None
         | c2 # cs' \<Rightarrow>
             if trailSurrogate c2
             then map_option ((@) (concat (map percent (utf8 (pairCodePoint c c2)))))
                    (encodeURIComponent cs')
             else None)
      else map_option ((@) (concat (map percent (utf8 c)))) (encodeURIComponent cs))"

text \<open>
  \<open>ENCODE_MAP\<close> and the replacement \<open>.replace(/[.!~*'()%]/g, c => ENCODE_MAP[c])\<close>, one
  code unit at a time (\<open>escapeChar\<close>): a code unit that the pattern matches is replaced by
  the table's entry (the string \<open>undefined\<close> if there were none), any other is kept.
  \<open>encodeKey\<close> is \<open>encodeKey_\<close>.
\<close>

definition ENCODE_MAP :: "(nat \<times> jsstring) list" where
  "ENCODE_MAP =
     [(46, [46, 50, 69]), (33, [46, 50, 49]), (126, [46, 55, 69]), (42, [46, 50, 65]),
      (39, [46, 50, 55]), (40, [46, 50, 56]), (41, [46, 50, 57]), (37, [46])]"

definition escapeChar :: "nat \<Rightarrow> jsstring" where
  "escapeChar c =
     (if c \<in> set [46, 33, 126, 42, 39, 40, 41, 37]
      then (case map_of ENCODE_MAP c of Some r \<Rightarrow> r | None \<Rightarrow> [117, 110, 100, 101, 102, 105, 110, 101, 100])
      else [c])"

definition encodeKey :: "jsstring \<Rightarrow> jsstring option" where
  "encodeKey key = map_option (\<lambda>e. 95 # concat (map escapeChar e)) (encodeURIComponent key)"

text \<open>
  Decode reads \<open>%XX\<close> as an octet (\<open>hexByte\<close>). An octet below \<open>0x80\<close> is a code unit. An
  octet with \<open>n\<close> leading one bits, \<open>n\<close> from 2 to 4, starts a UTF-8 sequence of \<open>n\<close>
  octets: the next \<open>n - 1\<close> escapes must be continuation octets (\<open>10xxxxxx\<close>), and the
  sequence must be the UTF-8 form of a code point (shortest form, no surrogate, at most
  \<open>0x10FFFF\<close>), which is then written in UTF-16. Everything else is a \<open>URIError\<close>.
\<close>

definition hexByte :: "jsstring \<Rightarrow> (nat \<times> jsstring) option" where
  "hexByte xs =
     (case xs of
        p # h1 # h2 # rest \<Rightarrow>
          (if p = 37 then
             (case (unhex h1, unhex h2) of
                (Some a, Some b) \<Rightarrow> Some (16 * a + b, rest)
              | _ \<Rightarrow> None)
           else None)
      | _ \<Rightarrow> None)"

fun continuation :: "nat \<Rightarrow> jsstring \<Rightarrow> (nat list \<times> jsstring) option" where
  "continuation 0 xs = Some ([], xs)"
| "continuation (Suc n) xs =
     (case hexByte xs of
        None \<Rightarrow> None
      | Some (b, rest) \<Rightarrow>
          if 128 \<le> b \<and> b < 192
          then (case continuation n rest of
                  None \<Rightarrow> None
                | Some (bs, rest') \<Rightarrow> Some (b # bs, rest'))
          else None)"

definition leadingOnes :: "nat \<Rightarrow> nat" where
  "leadingOnes b =
     (if b < 128 then 0 else if b < 192 then 1 else if b < 224 then 2
      else if b < 240 then 3 else if b < 248 then 4 else 5)"

definition utf8Decode :: "nat list \<Rightarrow> nat option" where
  "utf8Decode octets =
     (case octets of
        [b0, b1] \<Rightarrow>
          (let cp = (b0 - 192) * 64 + (b1 - 128) in if 128 \<le> cp then Some cp else None)
      | [b0, b1, b2] \<Rightarrow>
          (let cp = (b0 - 224) * 4096 + (b1 - 128) * 64 + (b2 - 128)
           in if 2048 \<le> cp \<and> \<not> (55296 \<le> cp \<and> cp \<le> 57343) then Some cp else None)
      | [b0, b1, b2, b3] \<Rightarrow>
          (let cp = (b0 - 240) * 262144 + (b1 - 128) * 4096 + (b2 - 128) * 64 + (b3 - 128)
           in if 65536 \<le> cp \<and> cp \<le> 1114111 then Some cp else None)
      | _ \<Rightarrow> None)"

definition utf16 :: "nat \<Rightarrow> jsstring" where
  "utf16 cp =
     (if cp < 65536 then [cp]
      else [55296 + (cp - 65536) div 1024, 56320 + (cp - 65536) mod 1024])"

lemma hexByte_shorter: "hexByte xs = Some (b, rest) \<Longrightarrow> length rest < length xs"
  by (auto simp: hexByte_def split: list.splits if_splits option.splits)

lemma continuation_shorter: "continuation n xs = Some (bs, rest) \<Longrightarrow> length rest \<le> length xs"
proof (induction n arbitrary: xs bs rest)
  case 0
  then show ?case by simp
next
  case (Suc n)
  then show ?case
    by (fastforce split: option.splits if_splits prod.splits dest!: hexByte_shorter)
qed

function decodeURIComponent :: "jsstring \<Rightarrow> jsstring option" where
  "decodeURIComponent xs =
     (case xs of
        [] \<Rightarrow> Some []
      | c # cs \<Rightarrow>
          if c \<noteq> 37 then map_option ((#) c) (decodeURIComponent cs)
          else
            (case hexByte xs of
               None \<Rightarrow> None
             | Some (b, rest) \<Rightarrow>
                 let n = leadingOnes b in
                 if n = 0 then map_option ((#) b) (decodeURIComponent rest)
                 else if n = 1 \<or> n > 4 then None
                 else
                   (case continuation (n - 1) rest of
                      None \<Rightarrow> None
                    | Some (bs, rest') \<Rightarrow>
                        (case utf8Decode (b # bs) of
                           None \<Rightarrow> None
                         | Some cp \<Rightarrow> map_option ((@) (utf16 cp)) (decodeURIComponent rest')))))"
  by pat_completeness auto
termination
  apply (relation "measure length")
    apply simp
   apply simp
  apply (auto dest!: continuation_shorter dest: hexByte_shorter)
  done

declare decodeURIComponent.simps [simp del]

text \<open>
  \<open>decodeKey\<close> is \<open>decodeKey_\<close>: \<open>decodeURIComponent(key.replace(/\\./g, '%')).substr(1)\<close>.
\<close>

definition dotToPercent :: "nat \<Rightarrow> nat" where
  "dotToPercent c = (if c = 46 then 37 else c)"

definition decodeKey :: "jsstring \<Rightarrow> jsstring option" where
  "decodeKey key = map_option (drop 1) (decodeURIComponent (map dotToPercent key))"

text \<open>
  A string is well formed when it has no unpaired surrogate. \<open>roundTrip\<close> is
  \<open>decodeKey_(encodeKey_(k))\<close>, with \<open>None\<close> when either call throws.
\<close>

fun wellFormed :: "jsstring \<Rightarrow> bool" where
  "wellFormed [] = True"
| "wellFormed (c # cs) =
     (if trailSurrogate c then False
      else if leadSurrogate c then
        (case cs of [] \<Rightarrow> False | c2 # cs' \<Rightarrow> trailSurrogate c2 \<and> wellFormed cs')
      else wellFormed cs)"

definition roundTrip :: "jsstring \<Rightarrow> jsstring option" where
  "roundTrip k = (case encodeKey k of None \<Rightarrow> None | Some e \<Rightarrow> decodeKey e)"

section \<open>Properties of the namespacing wrapper\<close>

lemma pm_iterate_Nil [simp]: "pm_iterate this opt_keys st [] = []"
  by (simp add: pm_iterate.simps)

lemma pm_iterate_Cons [simp]:
  "pm_iterate this opt_keys st (key # rest) =
     (if take (length (pm_prefix this)) key \<noteq> pm_prefix this
      then pm_iterate this opt_keys st rest
      else (if opt_keys then Some (drop (length (pm_prefix this)) key)
            else mech_get (pm_mechanism this) key st) # pm_iterate this opt_keys st rest)"
  by (subst pm_iterate.simps, simp, subst (2) pm_iterate.simps, simp)

lemma take_eq_iff_prefix: "take (length p) key = p \<longleftrightarrow> prefix p key"
  by (metis append_eq_conv_conj prefix_def)

lemma pm_iterate_filter:
  "pm_iterate this opt_keys st sub =
     map (\<lambda>key. if opt_keys then Some (drop (length (pm_prefix this)) key)
                 else mech_get (pm_mechanism this) key st)
       (filter (prefix (pm_prefix this)) sub)"
  by (induction sub) (simp_all add: take_eq_iff_prefix)

text \<open>
  Claim C4. On a mechanism whose \<open>get\<close> returns what \<open>set\<close> stored under the same key,
  \<open>set(k, v)\<close> followed by \<open>get(k)\<close> on the wrapper returns \<open>v\<close>; both operations reach the
  mechanism under the key \<open>prefix + '::' + k\<close>.
\<close>

theorem pm_set_get:
  assumes "\<forall>k v st. mech_get m k (mech_set m k v st) = Some v"
  shows "pm_get (PrefixedMechanism m p) k (pm_set (PrefixedMechanism m p) k v st) = Some v
       \<and> pm_set (PrefixedMechanism m p) k v st = mech_set m (p @ ''::'' @ k) v st
       \<and> pm_get (PrefixedMechanism m p) k st' = mech_get m (p @ ''::'' @ k) st'"
  using assms by (simp add: pm_get_def pm_set_def PrefixedMechanism_def)

theorem pm_set_get_witness:
  "(\<forall>k v st. mech_get alist_mechanism k (mech_set alist_mechanism k v st) = Some v)
   \<and> pm_get (PrefixedMechanism alist_mechanism ''ns'') ''k''
        (pm_set (PrefixedMechanism alist_mechanism ''ns'') ''k'' ''v'' [(''other::k'', ''w'')])
       = Some ''v''
   \<and> pm_set (PrefixedMechanism alist_mechanism ''ns'') ''k'' ''v'' [(''other::k'', ''w'')]
       = [(''other::k'', ''w''), (''ns::k'', ''v'')]"
proof -
  have law: "\<forall>k v st. mech_get alist_mechanism k (mech_set alist_mechanism k v st) = Some v"
    by (simp add: alist_mechanism_def update_Some_unfold)
  show ?thesis
    using law pm_set_get [OF law, of "''ns''" "''k''" "''v''" "[(''other::k'', ''w'')]" "[]"]
    by (simp add: alist_mechanism_def pm_set_def PrefixedMechanism_def)
qed

text \<open>
  Claim C5. Iterating the wrapper yields, in the mechanism's iteration order, exactly one
  item for each raw key that begins with \<open>prefix + '::'\<close> and nothing for any other key:
  the key without the prefix when keys are requested, and otherwise the mechanism's value
  for the raw key.
\<close>

theorem pm_iterator_filter:
  "pm_iterator (PrefixedMechanism m p) opt_keys st =
     map (\<lambda>key. if opt_keys then Some (drop (length (p @ ''::'')) key) else mech_get m key st)
       (filter (prefix (p @ ''::'')) (mech_keys m st))"
  by (simp add: pm_iterator_def pm_iterate_filter PrefixedMechanism_def)

section \<open>Properties of the script loader\<close>

subsection \<open>Unfolding the loop and the calls\<close>

lemma fire_Nil [simp]: "fire [] s = s"
  by (simp add: fire.simps(1))

lemma fire_skip: "\<not> runnable s d \<Longrightarrow> fire (d # work) s = fire work s"
  by (simp add: fire.simps(2))

lemma fire_run:
  "runnable s d \<Longrightarrow> fire (d # work) s = (case fire_step d s of (wake, s') \<Rightarrow> fire (wake @ d # work) s')"
  by (simp add: fire.simps(2))

lemma safeLoadMany_Nil:
  "safeLoadMany [] opt_options s =
     (Ref (length (heap s)), s\<lparr>heap := heap s @ [new_Deferred\<lparr>fired := True, result := Null\<rparr>]\<rparr>)"
  by (simp add: safeLoadMany_def succeed_def alloc_def callback_def settle_def hasFired_def
      updateResult_def fire_skip runnable_def new_Deferred_def)

lemma safeLoad_eq:
  "safeLoad u opts s =
     (length (heap s),
      s\<lparr>heap := heap s @ [new_Deferred],
        scripts := scripts s @
          [\<lparr> src = u, handlers = True,
             timer = ((case (case opts of None \<Rightarrow> None | Some opt \<Rightarrow> timeout opt) of
                         Some t \<Rightarrow> t | None \<Rightarrow> DEFAULT_TIMEOUT) > 0),
             cleanupOption = (case (case opts of None \<Rightarrow> None | Some opt \<Rightarrow> cleanupWhenDone opt) of
                                Some b \<Rightarrow> b | None \<Rightarrow> False),
             inDocument = True, request = length (heap s) \<rparr>]\<rparr>)"
  by (cases opts) (simp_all add: safeLoad_def alloc_def Let_def)

text \<open>
  \<open>verifying t n name deferred\<close>: in state \<open>t\<close> the load of script \<open>n\<close> is outstanding, its
  Deferred carries the two callbacks of \<open>safeLoadAndVerify\<close> for the slot \<open>name\<close>, and
  \<open>deferred\<close> is the wrapping Deferred the caller holds, not yet fired.
\<close>

definition verifying :: "jsloader \<Rightarrow> nat \<Rightarrow> string \<Rightarrow> nat \<Rightarrow> bool" where
  "verifying t n name deferred =
     (n < length (scripts t) \<and> handlers (scripts t ! n) \<and>
      request (scripts t ! n) < length (heap t) \<and> deferred < length (heap t) \<and>
      request (scripts t ! n) \<noteq> deferred \<and>
      heap t ! request (scripts t ! n) =
        new_Deferred\<lparr>sequence := [(Some (VerifyCallback name deferred), None),
                                  (None, Some (VerifyErrback name deferred))]\<rparr> \<and>
      heap t ! deferred = new_Deferred)"

lemma safeLoadAndVerify_verifying:
  assumes "verifyObjs s name = None" and "safeLoadAndVerify u name opts s = (deferred, s1)"
  shows "verifying (s1\<lparr>verifyObjs := r\<rparr>) (length (scripts s)) name deferred"
  using assms
  by (auto simp add: safeLoadAndVerify_def safeLoad_eq alloc_def addCallbacks_def push_def hasFired_def
      nth_append new_Deferred_def Let_def verifying_def)

lemma cleanup_heap [simp]: "heap (cleanup n b c s) = heap s"
  by (simp add: cleanup_def Let_def)

lemma cleanup_verifyObjs [simp]: "verifyObjs (cleanup n b c s) = verifyObjs s"
  by (simp add: cleanup_def Let_def)

lemma callback_verify:
  assumes "sd < length (heap t)" and "deferred < length (heap t)" and "sd \<noteq> deferred"
    and "heap t ! sd = new_Deferred\<lparr>sequence := [(Some (VerifyCallback name deferred), None),
                                  (None, Some (VerifyErrback name deferred))]\<rparr>"
    and "heap t ! deferred = new_Deferred"
  shows "case verifyObjs t name of
           Some v \<Rightarrow> outcome (callback sd Null t) deferred = Succeeded (Obj v)
                     \<and> verifyObjs (callback sd Null t) name = None
         | None \<Rightarrow> outcome (callback sd Null t) deferred = Failed (Error VERIFY_ERROR)"
proof -
  define t1 where "t1 = updateResult sd True Null t"
  have cb: "callback sd Null t = fire [sd] t1"
    using assms(1,4) by (simp add: callback_def settle_def hasFired_def new_Deferred_def t1_def)
  have h1: "heap t1 = (heap t)[sd := (heap t ! sd)\<lparr>fired := True, result := Null, hadError := False\<rparr>]"
    using assms(1) by (simp add: t1_def updateResult_def)
  have r1: "runnable t1 sd"
    using assms(1,4) by (simp add: runnable_def h1 new_Deferred_def)
  have v1: "verifyObjs t1 = verifyObjs t" using assms(1) by (simp add: t1_def updateResult_def)
  show ?thesis
  proof (cases "verifyObjs t name")
    case None
    define t2 where "t2 = snd (fire_step sd t1)"
    have fs: "fire_step sd t1 = ([deferred], t2)"
      using assms None v1 unfolding t2_def
      by (simp add: fire_step_def h1 new_Deferred_def Let_def settle_def hasFired_def updateResult_def)
    have h2: "heap t2 ! deferred = new_Deferred\<lparr>fired := True, result := Error VERIFY_ERROR, hadError := True\<rparr>"
      "heap t2 ! sd = (heap t ! sd)\<lparr>fired := True, result := Null, hadError := False,
            sequence := [(None, Some (VerifyErrback name deferred))]\<rparr>"
      "length (heap t2) = length (heap t)"
      using assms None v1 unfolding t2_def
      by (simp_all add: fire_step_def h1 new_Deferred_def Let_def settle_def hasFired_def updateResult_def)
    have nr: "\<not> runnable t2 deferred" by (simp add: runnable_def h2 new_Deferred_def)
    have r2: "runnable t2 sd" using assms(1,4) by (simp add: runnable_def h2 new_Deferred_def)
    define t3 where "t3 = snd (fire_step sd t2)"
    have fs3: "fire_step sd t2 = ([], t3)"
      using assms(1,4) unfolding t3_def by (simp add: fire_step_def h2 new_Deferred_def Let_def)
    have h3: "heap t3 ! deferred = heap t2 ! deferred" "sequence (heap t3 ! sd) = []"
         "length (heap t3) = length (heap t)"
      using assms(1,2,3,4) unfolding t3_def by (simp_all add: fire_step_def h2 new_Deferred_def Let_def)
    have nr3: "\<not> runnable t3 sd" by (simp add: runnable_def h3)
    have "callback sd Null t = t3"
      by (simp add: cb fire_run [OF r1] fs fire_skip [OF nr] fire_run [OF r2] fs3 fire_skip [OF nr3])
    then show ?thesis using None assms(2) by (simp add: outcome_def h3 h2 new_Deferred_def)
  next
    case (Some v)
    define t2 where "t2 = snd (fire_step sd t1)"
    have fs: "fire_step sd t1 = ([deferred], t2)"
      using assms Some v1 unfolding t2_def
      by (simp add: fire_step_def h1 new_Deferred_def Let_def settle_def hasFired_def updateResult_def)
    have h2: "heap t2 ! deferred = new_Deferred\<lparr>fired := True, result := Obj v, hadError := False\<rparr>"
      "heap t2 ! sd = (heap t ! sd)\<lparr>fired := True, result := Null, hadError := False,
            sequence := [(None, Some (VerifyErrback name deferred))]\<rparr>"
      "length (heap t2) = length (heap t)" "verifyObjs t2 name = None"
      using assms Some v1 unfolding t2_def
      by (simp_all add: fire_step_def h1 new_Deferred_def Let_def settle_def hasFired_def updateResult_def)
    have nr: "\<not> runnable t2 deferred" by (simp add: runnable_def h2 new_Deferred_def)
    have r2: "runnable t2 sd" using assms(1,4) by (simp add: runnable_def h2 new_Deferred_def)
    define t3 where "t3 = snd (fire_step sd t2)"
    have fs3: "fire_step sd t2 = ([], t3)"
      using assms(1,4) unfolding t3_def by (simp add: fire_step_def h2 new_Deferred_def Let_def)
    have h3: "heap t3 ! deferred = heap t2 ! deferred" "sequence (heap t3 ! sd) = []"
         "length (heap t3) = length (heap t)" "verifyObjs t3 = verifyObjs t2"
      using assms(1,2,3,4) unfolding t3_def by (simp_all add: fire_step_def h2 new_Deferred_def Let_def)
    have nr3: "\<not> runnable t3 sd" by (simp add: runnable_def h3)
    have "callback sd Null t = t3"
      by (simp add: cb fire_run [OF r1] fs fire_skip [OF nr] fire_run [OF r2] fs3 fire_skip [OF nr3])
    then show ?thesis using Some assms(2) by (simp add: outcome_def h3 h2 new_Deferred_def)
  qed
qed

lemma errback_plain:
  assumes "d < length (heap t)" and "\<not> fired (heap t ! d)" and "sequence (heap t ! d) = []"
  shows "errback d e t = updateResult d False e t"
proof -
  have "\<not> runnable (updateResult d False e t) d"
    using assms by (simp add: runnable_def updateResult_def)
  then show ?thesis
    using assms by (simp add: errback_def settle_def hasFired_def fire_skip)
qed

subsection \<open>An empty batch\<close>

text \<open>
  Claim C9. \<open>safeLoadMany\<close> on an empty list returns a new handle that has already succeeded
  (with \<open>null\<close>); the state changes by that handle only: the pending queue and the list of
  issued loads are as before.
\<close>

theorem safeLoadMany_empty:
  "safeLoadMany [] opt_options s =
     (Ref (length (heap s)), s\<lparr>heap := heap s @ [new_Deferred\<lparr>fired := True, result := Null\<rparr>]\<rparr>)
   \<and> outcome (snd (safeLoadMany [] opt_options s)) (length (heap s)) = Succeeded Null
   \<and> scriptsToLoad (snd (safeLoadMany [] opt_options s)) = scriptsToLoad s
   \<and> scripts (snd (safeLoadMany [] opt_options s)) = scripts s"
  by (simp add: safeLoadMany_Nil new_Deferred_def outcome_def)

subsection \<open>Verification\<close>

text \<open>
  Claim C7. When the named slot is already defined at the call (a script loaded earlier
  has set it and no verification has deleted it since), \<open>safeLoadAndVerify\<close> returns a
  new handle that has already failed with \<open>VERIFY_OBJECT_ALREADY_EXISTS\<close>, and the state
  changes by that handle only: no script element is created, so no load is attempted.
  A call does not define the slot itself: only the loaded script does, and
  \<open>safeLoadAndVerify\<close> only reads the slot and, after the load, deletes it. So a call made
  while the slot is undefined leaves the registry as it is, starts the load of the URI, and
  returns a handle that has not settled.
\<close>

theorem safeLoadAndVerify_exists:
  "case verifyObjs s verificationObjName of
     Some v \<Rightarrow>
       safeLoadAndVerify trustedUri verificationObjName options s =
           (length (heap s),
            s\<lparr>heap := heap s @ [new_Deferred\<lparr>fired := True, result := Error VERIFY_OBJECT_ALREADY_EXISTS,
                                              hadError := True\<rparr>]\<rparr>)
       \<and> outcome (snd (safeLoadAndVerify trustedUri verificationObjName options s)) (length (heap s))
           = Failed (Error VERIFY_OBJECT_ALREADY_EXISTS)
       \<and> scripts (snd (safeLoadAndVerify trustedUri verificationObjName options s)) = scripts s
   | None \<Rightarrow>
       verifyObjs (snd (safeLoadAndVerify trustedUri verificationObjName options s)) = verifyObjs s
       \<and> (\<exists>node. scripts (snd (safeLoadAndVerify trustedUri verificationObjName options s))
                    = scripts s @ [node] \<and> src node = trustedUri)
       \<and> outcome (snd (safeLoadAndVerify trustedUri verificationObjName options s))
            (fst (safeLoadAndVerify trustedUri verificationObjName options s)) = Pending"
proof (cases "verifyObjs s verificationObjName")
  case (Some v)
  then show ?thesis
    by (simp add: safeLoadAndVerify_def fail_def alloc_def errback_def settle_def hasFired_def
        updateResult_def fire_skip runnable_def new_Deferred_def outcome_def)
next
  case None
  then show ?thesis
    by (simp add: safeLoadAndVerify_def safeLoad_eq alloc_def addCallbacks_def push_def hasFired_def
        nth_append new_Deferred_def Let_def outcome_def)
qed

text \<open>
  Instances. A first call for the slot \<open>v\<close>, made while the slot is undefined, starts the
  load of \<open>a\<close> and returns a pending handle. Then the script runs and sets the slot, and
  its load event has not been delivered yet: a second call for the same slot fails at once
  and starts no load.
\<close>

theorem safeLoadAndVerify_exists_witness:
  "verifyObjs init ''v'' = None
   \<and> map src (scripts (snd (safeLoadAndVerify ''a'' ''v'' None init))) = [''a'']
   \<and> outcome (snd (safeLoadAndVerify ''a'' ''v'' None init))
        (fst (safeLoadAndVerify ''a'' ''v'' None init)) = Pending
   \<and> verifyObjs ((snd (safeLoadAndVerify ''a'' ''v'' None init))\<lparr>verifyObjs := [''v'' \<mapsto> ''x'']\<rparr>) ''v''
     = Some ''x''
   \<and> fst (safeLoadAndVerify ''b'' ''v'' None
         ((snd (safeLoadAndVerify ''a'' ''v'' None init))\<lparr>verifyObjs := [''v'' \<mapsto> ''x'']\<rparr>)) = 2
   \<and> outcome (snd (safeLoadAndVerify ''b'' ''v'' None
         ((snd (safeLoadAndVerify ''a'' ''v'' None init))\<lparr>verifyObjs := [''v'' \<mapsto> ''x'']\<rparr>))) 2
       = Failed (Error VERIFY_OBJECT_ALREADY_EXISTS)
   \<and> map src (scripts (snd (safeLoadAndVerify ''b'' ''v'' None
         ((snd (safeLoadAndVerify ''a'' ''v'' None init))\<lparr>verifyObjs := [''v'' \<mapsto> ''x'']\<rparr>)))) = [''a'']"
proof -
  define s where "s = (snd (safeLoadAndVerify ''a'' ''v'' None init))\<lparr>verifyObjs := [''v'' \<mapsto> ''x'']\<rparr>"
  have n: "verifyObjs init ''v'' = None" "scripts init = []" by (simp_all add: init_def)
  note th0 = safeLoadAndVerify_exists [where s = init and verificationObjName = "''v''"
      and trustedUri = "''a''" and options = None, unfolded n option.case]
  have f: "map src (scripts (snd (safeLoadAndVerify ''a'' ''v'' None init))) = [''a'']"
    "outcome (snd (safeLoadAndVerify ''a'' ''v'' None init))
        (fst (safeLoadAndVerify ''a'' ''v'' None init)) = Pending"
    using th0 by auto
  have h: "verifyObjs s ''v'' = Some ''x''" by (simp add: s_def)
  have "length (heap (snd (safeLoadAndVerify ''a'' ''v'' None init))) = 2" by code_simp
  then have l: "length (heap s) = 2" by (simp add: s_def)
  have sc: "map src (scripts s) = [''a'']" using f(1) by (simp add: s_def)
  note th = safeLoadAndVerify_exists [where s = s and verificationObjName = "''v''"
      and trustedUri = "''b''" and options = None, unfolded h option.case l]
  have a: "fst (safeLoadAndVerify ''b'' ''v'' None s) = 2" using th by simp
  have b: "outcome (snd (safeLoadAndVerify ''b'' ''v'' None s)) 2 = Failed (Error VERIFY_OBJECT_ALREADY_EXISTS)"
    using th by blast
  have c: "map src (scripts (snd (safeLoadAndVerify ''b'' ''v'' None s))) = [''a'']"
    using th sc by simp
  show ?thesis
    unfolding s_def [symmetric] using n(1) f h a b c by blast
qed

text \<open>
  So the example that claim C7 gives, a second call with the same slot name before the
  first has settled, is not an instance of it in general. Two calls for the slot \<open>v\<close>
  with no event in between: after the first call the slot is still undefined and the first
  handle is pending; the second call does not fail, its handle is pending too, and the
  load of \<open>b\<close> has been started next to the load of \<open>a\<close>.
\<close>

theorem safeLoadAndVerify_twice:
  "(let (h1, s1) = safeLoadAndVerify ''a'' ''v'' None init;
        (h2, s2) = safeLoadAndVerify ''b'' ''v'' None s1
    in verifyObjs s1 ''v'' = None \<and> outcome s1 h1 = Pending
       \<and> outcome s2 h2 = Pending \<and> outcome s2 h1 = Pending
       \<and> map src (scripts s2) = [''a'', ''b'']
       \<and> map handlers (scripts s2) = [True, True])"
  by code_simp

text \<open>
  Claim C6. After a call of \<open>safeLoadAndVerify\<close> (with the slot undefined at the call),
  whatever the registry \<open>r\<close> holds when the load completes successfully (\<open>onload\<close>, or
  \<open>onreadystatechange\<close> with state \<open>'loaded'\<close> or \<open>'complete'\<close>): if the slot is defined,
  the returned handle succeeds with the slot's value and the slot is deleted; if it is
  undefined, the handle fails with \<open>VERIFY_ERROR\<close>.
\<close>

theorem safeLoadAndVerify_loaded:
  assumes "verifyObjs s name = None"
      and "safeLoadAndVerify u name opts s = (deferred, s1)"
      and "rs \<noteq> OtherReadyState"
      and "s2 = host (Onload (length (scripts s)) rs) (s1\<lparr>verifyObjs := r\<rparr>)"
  shows "case r name of
           Some v \<Rightarrow> outcome s2 deferred = Succeeded (Obj v) \<and> verifyObjs s2 name = None
         | None \<Rightarrow> outcome s2 deferred = Failed (Error VERIFY_ERROR)"
proof -
  have ok: "rs = NoReadyState \<or> rs = Loaded \<or> rs = Complete"
    using assms(3) by (cases rs) simp_all
  define t where "t = s1\<lparr>verifyObjs := r\<rparr>"
  define n where "n = length (scripts s)"
  have v: "verifying t n name deferred"
    unfolding t_def n_def by (rule safeLoadAndVerify_verifying [OF assms(1,2)])
  define t' where "t' = cleanup n (cleanupOption (scripts t ! n)) True t"
  have s2: "s2 = callback (request (scripts t ! n)) Null t'"
    using v ok by (simp add: assms(4) t_def [symmetric] n_def [symmetric] verifying_def t'_def)
  have "case verifyObjs t' name of
           Some v \<Rightarrow> outcome (callback (request (scripts t ! n)) Null t') deferred = Succeeded (Obj v)
                     \<and> verifyObjs (callback (request (scripts t ! n)) Null t') name = None
         | None \<Rightarrow> outcome (callback (request (scripts t ! n)) Null t') deferred = Failed (Error VERIFY_ERROR)"
    using v by (intro callback_verify) (simp_all add: verifying_def t'_def)
  moreover have "verifyObjs t' = r" by (simp add: t'_def t_def)
  ultimately show ?thesis unfolding s2 by simp
qed

theorem safeLoadAndVerify_loaded_witness:
  "verifyObjs init ''v'' = None \<and> Loaded \<noteq> OtherReadyState
   \<and> outcome (host (Onload 0 Loaded)
        (snd (safeLoadAndVerify ''a'' ''v'' None init)\<lparr>verifyObjs := [''v'' \<mapsto> ''x'']\<rparr>))
        (fst (safeLoadAndVerify ''a'' ''v'' None init)) = Succeeded (Obj ''x'')
   \<and> verifyObjs (host (Onload 0 Loaded)
        (snd (safeLoadAndVerify ''a'' ''v'' None init)\<lparr>verifyObjs := [''v'' \<mapsto> ''x'']\<rparr>)) ''v'' = None
   \<and> outcome (host (Onload 0 NoReadyState)
        (snd (safeLoadAndVerify ''a'' ''v'' None init)\<lparr>verifyObjs := Map.empty\<rparr>))
        (fst (safeLoadAndVerify ''a'' ''v'' None init)) = Failed (Error VERIFY_ERROR)"
proof -
  have a: "verifyObjs init ''v'' = None" by (simp add: init_def)
  have b: "safeLoadAndVerify ''a'' ''v'' None init =
             (fst (safeLoadAndVerify ''a'' ''v'' None init), snd (safeLoadAndVerify ''a'' ''v'' None init))"
    by simp
  have c: "Loaded \<noteq> OtherReadyState" "NoReadyState \<noteq> OtherReadyState" by simp_all
  have n: "length (scripts init) = 0" by (simp add: init_def)
  show ?thesis
    using a c(1)
      safeLoadAndVerify_loaded [OF a b c(1) refl, of "[''v'' \<mapsto> ''x'']"]
      safeLoadAndVerify_loaded [OF a b c(2) refl, of Map.empty]
    by (simp add: n)
qed

subsection \<open>The queue: what the Deferred operations leave alone\<close>

lemma push_frame [simp]:
  "scripts (push d e s) = scripts s" "scriptsToLoad (push d e s) = scriptsToLoad s"
  "length (heap (push d e s)) = length (heap s)"
  by (simp_all add: push_def)

lemma updateResult_frame [simp]:
  "scripts (updateResult d b v s) = scripts s" "scriptsToLoad (updateResult d b v s) = scriptsToLoad s"
  "length (heap (updateResult d b v s)) = length (heap s)"
  by (simp_all add: updateResult_def)

lemma setBlocking_frame [simp]:
  "scripts (setBlocking d s) = scripts s" "scriptsToLoad (setBlocking d s) = scriptsToLoad s"
  "length (heap (setBlocking d s)) = length (heap s)"
  by (simp_all add: setBlocking_def)













lemma loadNode_sel [simp]:
  "src (loadNode u opts d) = u" "handlers (loadNode u opts d)" "request (loadNode u opts d) = d"
  "inDocument (loadNode u opts d)"
  by (simp_all add: loadNode_def)

lemma safeLoad_node:
  "safeLoad u opts s =
     (length (heap s),
      s\<lparr>heap := heap s @ [new_Deferred], scripts := scripts s @ [loadNode u opts (length (heap s))]\<rparr>)"
  by (simp add: safeLoad_eq loadNode_def)

lemma pop_Cons:
  assumes "scriptsToLoad s = u # rest"
  shows "popAndLoadNextScript opts s =
     Some (length (heap s),
           s\<lparr>scriptsToLoad := rest,
             heap := heap s @ [new_Deferred\<lparr>sequence :=
                       (if rest \<noteq> [] then [(Some (PopAndLoadNextScript opts),
                                               Some (PopAndLoadNextScript opts))] else [])\<rparr>],
             scripts := scripts s @ [loadNode u opts (length (heap s))]\<rparr>)"
  using assms by (simp add: popAndLoadNextScript_def safeLoad_node push_def new_Deferred_def)

lemma safeLoadMany_fresh:
  assumes "scriptsToLoad s = []"
  shows "safeLoadMany (u # rest) opts s =
     (Ref (length (heap s)),
      s\<lparr>scriptsToLoad := rest,
        heap := heap s @ [new_Deferred\<lparr>sequence :=
                  (if rest \<noteq> [] then [(Some (PopAndLoadNextScript opts),
                                          Some (PopAndLoadNextScript opts))] else [])\<rparr>],
        scripts := scripts s @ [loadNode u opts (length (heap s))],
        scriptLoadingDeferred := Ref (length (heap s))\<rparr>)"
  using assms pop_Cons [of "s\<lparr>scriptsToLoad := u # rest\<rparr>" u rest opts]
  by (simp add: safeLoadMany_def)

lemma safeLoadMany_join:
  assumes "scriptsToLoad s \<noteq> []" and "uris \<noteq> []"
  shows "safeLoadMany uris opts s = (scriptLoadingDeferred s, s\<lparr>scriptsToLoad := scriptsToLoad s @ uris\<rparr>)"
  using assms by (simp add: safeLoadMany_def)




subsection \<open>Firing a Deferred that holds continuations only\<close>

lemma calm_refl: "calm s s"
  by (simp add: calm_def)

lemma calm_fired: "calm s s' \<Longrightarrow> d < length (heap s) \<Longrightarrow> fired (heap s ! d) \<Longrightarrow> fired (heap s' ! d)"
  by (simp add: calm_def)

lemma calm_sequence:
  "calm s s' \<Longrightarrow> d < length (heap s) \<Longrightarrow> fired (heap s ! d) \<Longrightarrow>
     set (sequence (heap s' ! d)) \<subseteq> set (sequence (heap s ! d))"
  by (simp add: calm_def)

lemma calm_unfired:
  "calm s s' \<Longrightarrow> d < length (heap s) \<Longrightarrow> \<not> fired (heap s ! d) \<Longrightarrow> heap s' ! d = heap s ! d"
  by (simp add: calm_def)

lemma calm_length: "calm s s' \<Longrightarrow> length (heap s') = length (heap s)"
  by (simp add: calm_def)

lemma calmI:
  assumes "scripts s' = scripts s" "scriptsToLoad s' = scriptsToLoad s"
    "scriptLoadingDeferred s' = scriptLoadingDeferred s" "removals s' = removals s"
    "length (heap s') = length (heap s)"
    "\<And>d. d < length (heap s) \<Longrightarrow> fired (heap s ! d) \<Longrightarrow> fired (heap s' ! d)"
    "\<And>d. d < length (heap s) \<Longrightarrow> fired (heap s ! d) \<Longrightarrow>
          set (sequence (heap s' ! d)) \<subseteq> set (sequence (heap s ! d))"
    "\<And>d. d < length (heap s) \<Longrightarrow> \<not> fired (heap s ! d) \<Longrightarrow> heap s' ! d = heap s ! d"
  shows "calm s s'"
  using assms by (simp add: calm_def)

lemma calm_trans:
  assumes a: "calm s s'" and b: "calm s' s''"
  shows "calm s s''"
proof (rule calmI)
  show "scripts s'' = scripts s" "scriptsToLoad s'' = scriptsToLoad s"
    "scriptLoadingDeferred s'' = scriptLoadingDeferred s" "removals s'' = removals s"
    "length (heap s'') = length (heap s)"
    using a b by (simp_all add: calm_def)
next
  fix d assume d: "d < length (heap s)" and f: "fired (heap s ! d)"
  have d': "d < length (heap s')" using d a by (simp add: calm_length)
  have f': "fired (heap s' ! d)" by (rule calm_fired [OF a d f])
  show "fired (heap s'' ! d)" by (rule calm_fired [OF b d' f'])
  show "set (sequence (heap s'' ! d)) \<subseteq> set (sequence (heap s ! d))"
    using calm_sequence [OF a d f] calm_sequence [OF b d' f'] by blast
next
  fix d assume d: "d < length (heap s)" and f: "\<not> fired (heap s ! d)"
  have d': "d < length (heap s')" using d a by (simp add: calm_length)
  have e: "heap s' ! d = heap s ! d" by (rule calm_unfired [OF a d f])
  with f have "\<not> fired (heap s' ! d)" by simp
  from calm_unfired [OF b d' this] e show "heap s'' ! d = heap s ! d" by simp
qed

lemma quietCb_mono:
  assumes "quietCb s c" and "length (heap s) \<le> length (heap s')"
    and "\<And>p. p < length (heap s) \<Longrightarrow> fired (heap s ! p) \<Longrightarrow> fired (heap s' ! p)"
  shows "quietCb s' c"
  using assms by (cases "(s, c)" rule: quietCb.cases) auto

lemma quiet_mono:
  assumes "quiet s es" and "set es' \<subseteq> set es" and "length (heap s) \<le> length (heap s')"
    and "\<And>p. p < length (heap s) \<Longrightarrow> fired (heap s ! p) \<Longrightarrow> fired (heap s' ! p)"
  shows "quiet s' es'"
  using assms unfolding quiet_def by (meson quietCb_mono subsetD)

lemma allquiet_calm:
  assumes "allquiet s" and "calm s s'"
  shows "allquiet s'"
  unfolding allquiet_def
proof (intro allI impI)
  fix d assume d: "d < length (heap s')" and f: "fired (heap s' ! d)"
  from assms(2) have len: "length (heap s') = length (heap s)" by (simp add: calm_def)
  have fd: "fired (heap s ! d)"
    using calm_unfired [OF assms(2), of d] d f len by force
  have sub: "set (sequence (heap s' ! d)) \<subseteq> set (sequence (heap s ! d))"
    using calm_sequence [OF assms(2) _ fd] d len by simp
  have q: "quiet s (sequence (heap s ! d))"
    using assms(1) d fd len by (simp add: allquiet_def)
  show "quiet s' (sequence (heap s' ! d))"
  proof (rule quiet_mono [OF q sub eq_imp_le [OF len [symmetric]]])
    fix p assume "p < length (heap s)" "fired (heap s ! p)"
    then show "fired (heap s' ! p)" by (rule calm_fired [OF assms(2)])
  qed
qed

lemma fire_step_quiet:
  assumes r: "runnable s d" and f: "fired (heap s ! d)" and q: "quiet s (sequence (heap s ! d))"
  obtains wake s' where "fire_step d s = (wake, s')" and "calm s s'"
    and "\<forall>p \<in> set wake. p < length (heap s) \<and> fired (heap s ! p)"
proof -
  define D where "D = heap s ! d"
  define s1 where "s1 = s\<lparr>heap := (heap s)[d := D\<lparr>sequence := tl (sequence D)\<rparr>]\<rparr>"
  from r have d: "d < length (heap s)" and ne: "sequence D \<noteq> []"
    by (simp_all add: runnable_def D_def)
  obtain cb eb where hd: "hd (sequence D) = (cb, eb)" by (cases "hd (sequence D)")
  have "(cb, eb) \<in> set (sequence D)" using ne hd by (metis list.set_sel(1))
  then have qcb: "quietCb s cb" "quietCb s eb" using q by (auto simp: quiet_def D_def)
  define c where "c = (if hadError D then eb else cb)"
  have qc: "quietCb s c" using qcb by (simp add: c_def)
  have c1: "calm s s1"
  proof (rule calmI)
    fix k assume "k < length (heap s)" "fired (heap s ! k)"
    then show "fired (heap s1 ! k)" "set (sequence (heap s1 ! k)) \<subseteq> set (sequence (heap s ! k))"
      using ne d by (auto simp: s1_def D_def nth_list_update dest: list.set_sel(2))
  next
    fix k assume "k < length (heap s)" "\<not> fired (heap s ! k)"
    then show "heap s1 ! k = heap s ! k" using f d by (auto simp: s1_def nth_list_update)
  qed (simp_all add: s1_def)
  show ?thesis
  proof (cases c)
    case None
    have "fire_step d s = ([], s1)"
      using hd None by (simp add: fire_step_def Let_def D_def [symmetric] s1_def [symmetric] c_def [symmetric])
    then show ?thesis using c1 that by simp
  next
    case (Some k)
    then obtain p b where k: "k = Continue p b" and p: "p < length (heap s)" "fired (heap s ! p)"
      using qc by (cases k) auto
    define s2 where "s2 = updateResult p b (result D)
              (s1\<lparr>heap := (heap s1)[p := (heap s1 ! p)\<lparr>blocked := False\<rparr>]\<rparr>)"
    have "run_callback k (result D) s1 = (Returned Undefined [p], s2)"
      using p by (simp add: k s2_def s1_def)
    then have fs: "fire_step d s = ([p], s2)"
      using hd Some by (simp add: fire_step_def Let_def D_def [symmetric] s1_def [symmetric] c_def [symmetric])
    have h2: "heap s2 = (heap s1)[p := (heap s1 ! p)\<lparr>blocked := False, fired := True,
                  result := result D, hadError := \<not> b\<rparr>]"
      using p by (simp add: s2_def updateResult_def s1_def)
    have p1: "p < length (heap s1)" using p by (simp add: s1_def)
    have "calm s1 s2"
    proof (rule calmI)
      fix k assume "k < length (heap s1)" "fired (heap s1 ! k)"
      then show "fired (heap s2 ! k)" "set (sequence (heap s2 ! k)) \<subseteq> set (sequence (heap s1 ! k))"
        using p1 by (auto simp: h2 nth_list_update)
    next
      fix k assume "k < length (heap s1)" "\<not> fired (heap s1 ! k)"
      moreover have "fired (heap s1 ! p)" using calm_fired [OF c1 p] .
      ultimately show "heap s2 ! k = heap s1 ! k" using p1 by (auto simp: h2 nth_list_update)
    qed (simp_all add: s2_def updateResult_def)
    with c1 have "calm s s2" by (rule calm_trans)
    then show ?thesis using fs p that by simp
  qed
qed

lemma fire_quiet:
  assumes "allquiet s" and "\<forall>d \<in> set work. d < length (heap s) \<longrightarrow> fired (heap s ! d)"
  shows "calm s (fire work s)"
  using assms
proof (induction work s rule: fire.induct)
  case (1 s)
  then show ?case by (simp add: calm_refl)
next
  case (2 d work s)
  show ?case
  proof (cases "runnable s d")
    case False
    with 2(2) [OF False] 2(3,4) show ?thesis by (simp add: fire_skip)
  next
    case True
    then have d: "d < length (heap s)" by (simp add: runnable_def)
    with 2(4) have f: "fired (heap s ! d)" by simp
    with 2(3) d have q: "quiet s (sequence (heap s ! d))" by (simp add: allquiet_def)
    from fire_step_quiet [OF True f q]
    obtain wake s' where fs: "fire_step d s = (wake, s')" and c: "calm s s'"
      and w: "\<forall>p \<in> set wake. p < length (heap s) \<and> fired (heap s ! p)" by blast
    have aq: "allquiet s'" by (rule allquiet_calm [OF 2(3) c])
    have mono: "p < length (heap s) \<Longrightarrow> fired (heap s ! p) \<Longrightarrow> fired (heap s' ! p)" for p
      by (rule calm_fired [OF c])
    have len: "length (heap s') = length (heap s)" using c by (simp add: calm_def)
    have wk: "\<forall>x \<in> set (wake @ d # work). x < length (heap s') \<longrightarrow> fired (heap s' ! x)"
      using w 2(4) mono len by auto
    have "calm s' (fire (wake @ d # work) s')"
      by (rule 2(1) [OF True fs [symmetric] aq wk])
    with c have "calm s (fire (wake @ d # work) s')" by (rule calm_trans)
    then show ?thesis using True fs by (simp add: fire_run)
  qed
qed

subsection \<open>Firing the Deferred that holds the queue's continuation\<close>

lemma fire_chained:
  assumes d: "d < length (heap t)" and f: "fired (heap t ! d)" and nb: "\<not> blocked (heap t ! d)"
    and sq: "sequence (heap t ! d) = popEntry opts # rest"
    and q: "scriptsToLoad t = u # q'"
  defines "dn \<equiv> length (heap t)"
  shows "scripts (fire [d] t) = scripts t @ [loadNode u opts dn]"
    and "scriptsToLoad (fire [d] t) = q'"
    and "length (heap (fire [d] t)) = Suc (length (heap t))"
    and "heap (fire [d] t) ! d =
           (heap t ! d)\<lparr>sequence := rest, result := Ref dn, hadError := False, blocked := True\<rparr>"
    and "heap (fire [d] t) ! dn =
           new_Deferred\<lparr>sequence := (if q' \<noteq> [] then [popEntry opts] else [])
                                      @ [(Some (Continue d True), Some (Continue d False))],
                        blocking := True\<rparr>"
    and "\<forall>k < length (heap t). k \<noteq> d \<longrightarrow> heap (fire [d] t) ! k = heap t ! k"
proof -
  define D where "D = heap t ! d"
  define s1 where "s1 = t\<lparr>heap := (heap t)[d := D\<lparr>sequence := rest\<rparr>]\<rparr>"
  define s2 where "s2 = s1\<lparr>scriptsToLoad := q',
             heap := heap s1 @ [new_Deferred\<lparr>sequence :=
                       (if q' \<noteq> [] then [(Some (PopAndLoadNextScript opts),
                                             Some (PopAndLoadNextScript opts))] else [])\<rparr>],
             scripts := scripts s1 @ [loadNode u opts (length (heap s1))]\<rparr>"
  have r: "runnable t d" using d nb sq by (simp add: runnable_def)
  have q1: "scriptsToLoad s1 = u # q'" using q by (simp add: s1_def)
  have l1: "length (heap s1) = dn" by (simp add: s1_def dn_def)
  have rc: "run_callback (PopAndLoadNextScript opts) (result D) s1 = (Returned (Ref dn) [], s2)"
    using pop_Cons [OF q1, of opts] by (simp add: s2_def l1)
  obtain w3 s3 where b: "blockOn d dn s2 = (w3, s3)" by (cases "blockOn d dn s2")
  have fs: "fire_step d t = (w3, s3)"
    using sq rc b
    by (simp add: fire_step_def Let_def D_def [symmetric] s1_def [symmetric] popEntry_def
          del: run_callback.simps)
  have h2: "heap s2 = (heap t)[d := D\<lparr>sequence := rest\<rparr>] @ [new_Deferred\<lparr>sequence :=
                       (if q' \<noteq> [] then [popEntry opts] else [])\<rparr>]"
    using sq by (simp add: s2_def s1_def D_def popEntry_def)
  define h3 where "h3 = (heap s2)[d := (heap s2 ! d)\<lparr>result := Ref dn, hadError := False, blocked := True\<rparr>]"
  have len3: "length h3 = Suc dn" by (simp add: h3_def h2 dn_def)
  have h3d: "h3 ! d = D\<lparr>sequence := rest, result := Ref dn, hadError := False, blocked := True\<rparr>"
    using d by (simp add: h3_def h2 nth_append)
  have h3n: "h3 ! dn = new_Deferred\<lparr>sequence := (if q' \<noteq> [] then [popEntry opts] else [])\<rparr>"
    using d by (simp add: h3_def h2 nth_append dn_def)
  have h3k: "k < dn \<Longrightarrow> k \<noteq> d \<Longrightarrow> h3 ! k = heap t ! k" for k
    by (simp add: h3_def h2 nth_append dn_def)
  have s3: "s3 = setBlocking dn (push dn (Some (Continue d True), Some (Continue d False))
                    (s2\<lparr>heap := h3\<rparr>))"
    using b by (auto simp: blockOn_def Let_def h3_def)
  have hs3: "heap s3 = h3[dn := (h3 ! dn)\<lparr>sequence := sequence (h3 ! dn)
                 @ [(Some (Continue d True), Some (Continue d False))], blocking := True\<rparr>]"
    using len3 by (simp add: s3 setBlocking_def push_def)
  have ddn: "d \<noteq> dn" using d by (simp add: dn_def)
  have w3: "w3 = []"
    using b len3 h3n by (auto simp: blockOn_def Let_def h3_def [symmetric] hasFired_def
        setBlocking_def push_def new_Deferred_def)
  have nr: "\<not> runnable s3 d"
    using d ddn len3 by (simp add: runnable_def hs3 h3d)
  have fire: "fire [d] t = s3"
    by (simp add: fire_run [OF r] fs w3 fire_skip [OF nr])
  show "scripts (fire [d] t) = scripts t @ [loadNode u opts dn]"
    by (simp add: fire s3 s2_def s1_def dn_def)
  show "scriptsToLoad (fire [d] t) = q'"
    by (simp add: fire s3 s2_def)
  show "length (heap (fire [d] t)) = Suc (length (heap t))"
    by (simp add: fire hs3 len3 dn_def)
  show "heap (fire [d] t) ! d =
           (heap t ! d)\<lparr>sequence := rest, result := Ref dn, hadError := False, blocked := True\<rparr>"
    using ddn by (simp add: fire hs3 h3d D_def)
  show "heap (fire [d] t) ! dn =
           new_Deferred\<lparr>sequence := (if q' \<noteq> [] then [popEntry opts] else [])
                                      @ [(Some (Continue d True), Some (Continue d False))],
                        blocking := True\<rparr>"
    using len3 by (simp add: fire hs3 h3n)
  show "\<forall>k < length (heap t). k \<noteq> d \<longrightarrow> heap (fire [d] t) ! k = heap t ! k"
    using h3k by (simp add: fire hs3 dn_def)
qed

lemma chained_not_quiet: "chained s d \<Longrightarrow> \<not> quiet s (sequence (heap s ! d))"
  by (auto simp: chained_def quiet_def popEntry_def)

lemma wf_request: "wf s \<Longrightarrow> i < length (scripts s) \<Longrightarrow> request (scripts s ! i) < length (heap s)"
  by (simp add: wf_def)

lemma wf_shape: "wf s \<Longrightarrow> d < length (heap s) \<Longrightarrow> quiet s (sequence (heap s ! d)) \<or> chained s d"
  by (simp add: wf_def)

lemma wf_last:
  assumes "wf s" and "n < length (scripts s)" and "request (last (scripts s)) = request (scripts s ! n)"
  shows "Suc n = length (scripts s)"
proof -
  have ne: "scripts s \<noteq> []" using assms(2) by auto
  have "distinct (map request (scripts s))" using assms(1) by (simp add: wf_def)
  moreover have "map request (scripts s) ! (length (scripts s) - 1) = map request (scripts s) ! n"
    using assms(2,3) ne by (simp add: last_conv_nth)
  ultimately have "length (scripts s) - 1 = n"
    using assms(2) ne nth_eq_iff_index_eq [of "map request (scripts s)" "length (scripts s) - 1" n]
    by simp
  then show ?thesis using ne by (cases "scripts s") auto
qed

lemma complete_quiet:
  fixes b :: bool and v :: jsval
  assumes wf: "wf t" and d: "d < length (heap t)" and nf: "\<not> fired (heap t ! d)"
    and q: "quiet t (sequence (heap t ! d))"
  defines "t' \<equiv> fire [d] (updateResult d b v t)"
  shows "wf t'" and "scripts t' = scripts t" and "scriptsToLoad t' = scriptsToLoad t"
    and "\<forall>k < length (heap t). fired (heap t ! k) \<longrightarrow> fired (heap t' ! k)"
    and "hasFired t' d" and "length (heap t) \<le> length (heap t')"
proof -
  define t1 where "t1 = updateResult d b v t"
  have h1: "heap t1 = (heap t)[d := (heap t ! d)\<lparr>fired := True, result := v, hadError := \<not> b\<rparr>]"
    using d by (simp add: t1_def updateResult_def)
  have len1: "length (heap t1) = length (heap t)" by (simp add: h1)
  have fd1: "fired (heap t1 ! d)" using d by (simp add: h1)
  have seq1: "sequence (heap t1 ! k) = sequence (heap t ! k)" if "k < length (heap t)" for k
    using that by (cases "k = d") (simp_all add: h1)
  have mono1: "fired (heap t1 ! k)" if "k < length (heap t)" "fired (heap t ! k)" for k
    using that by (cases "k = d") (simp_all add: h1)
  have same1: "heap t1 ! k = heap t ! k" if "k \<noteq> d" for k using that by (simp add: h1)
  have aq: "allquiet t1"
    unfolding allquiet_def
  proof (intro allI impI)
    fix k assume k: "k < length (heap t1)" and fk: "fired (heap t1 ! k)"
    have "quiet t (sequence (heap t ! k))"
    proof (cases "k = d")
      case True
      then show ?thesis using q by simp
    next
      case False
      then have "fired (heap t ! k)" using fk same1 by simp
      then have "\<not> chained t k" by (auto simp: chained_def)
      then show ?thesis using wf_shape [OF wf] k len1 by auto
    qed
    then show "quiet t1 (sequence (heap t1 ! k))"
      using k len1 seq1 mono1 by (intro quiet_mono [of t _ _ t1]) auto
  qed
  have c: "calm t1 t'"
    unfolding t'_def t1_def [symmetric] using aq fd1 by (intro fire_quiet) auto
  have len': "length (heap t') = length (heap t)" using calm_length [OF c] len1 by simp
  have mono: "fired (heap t' ! k)" if "k < length (heap t)" "fired (heap t ! k)" for k
    using calm_fired [OF c, of k] mono1 [OF that] that len1 by simp
  have sc: "scripts t' = scripts t" "scriptsToLoad t' = scriptsToLoad t"
    using c by (simp_all add: calm_def t1_def)
  show "scripts t' = scripts t" "scriptsToLoad t' = scriptsToLoad t" by (rule sc)+
  show "length (heap t) \<le> length (heap t')" by (simp add: len')
  show "\<forall>k < length (heap t). fired (heap t ! k) \<longrightarrow> fired (heap t' ! k)" using mono by blast
  show "hasFired t' d" using calm_fired [OF c, of d] fd1 d len1 len' by (simp add: hasFired_def)
  show "wf t'"
    unfolding wf_def
  proof (intro conjI allI impI)
    fix i assume "i < length (scripts t')"
    then show "request (scripts t' ! i) < length (heap t')"
      using wf_request [OF wf, of i] by (simp add: sc len')
  next
    show "distinct (map request (scripts t'))" using wf by (simp add: sc wf_def)
  next
    fix k assume k': "k < length (heap t')"
    then have k: "k < length (heap t)" by (simp add: len')
    have sub: "set (sequence (heap t' ! k)) \<subseteq> set (sequence (heap t ! k))"
    proof (cases "fired (heap t1 ! k)")
      case True
      then show ?thesis using calm_sequence [OF c, of k] k len1 seq1 by simp
    next
      case False
      then show ?thesis using calm_unfired [OF c, of k] k len1 seq1 by simp
    qed
    from wf_shape [OF wf k] show "quiet t' (sequence (heap t' ! k)) \<or> chained t' k"
    proof
      assume "quiet t (sequence (heap t ! k))"
      then have "quiet t' (sequence (heap t' ! k))"
        using sub len' mono by (intro quiet_mono [of t _ _ t']) auto
      then show ?thesis ..
    next
      assume ch: "chained t k"
      then have kd: "k \<noteq> d" using chained_not_quiet q by blast
      from ch have "\<not> fired (heap t ! k)" by (auto simp: chained_def)
      then have "\<not> fired (heap t1 ! k)" using kd same1 by simp
      then have e: "heap t' ! k = heap t ! k"
        using calm_unfired [OF c, of k] k len1 same1 [OF kd] by simp
      from ch obtain opts rest where
        r: "sequence (heap t ! k) = popEntry opts # rest" "quiet t rest"
           "\<not> fired (heap t ! k)" "\<not> blocked (heap t ! k)"
           "scriptsToLoad t \<noteq> []" "scripts t \<noteq> []" "request (last (scripts t)) = k"
        unfolding chained_def by blast
      have "quiet t' rest" using r(2) len' mono by (intro quiet_mono [of t _ _ t']) auto
      then have "chained t' k"
        unfolding chained_def using r e sc by auto
      then show ?thesis ..
    qed
  qed
qed

lemma complete_chained:
  fixes b :: bool and v :: jsval
  assumes wf: "wf t" and d: "d < length (heap t)" and ch: "chained t d"
  defines "t' \<equiv> fire [d] (updateResult d b v t)"
  shows "wf t'" and "\<exists>u opts. scripts t' = scripts t @ [loadNode u opts (length (heap t))]"
    and "request (last (scripts t)) = d"
    and "\<forall>k < length (heap t). fired (heap t ! k) \<longrightarrow> fired (heap t' ! k)"
    and "hasFired t' d" and "length (heap t) \<le> length (heap t')"
proof -
  from ch obtain opts rest where
    r: "sequence (heap t ! d) = popEntry opts # rest" "quiet t rest"
       "\<not> fired (heap t ! d)" "\<not> blocked (heap t ! d)"
       "scriptsToLoad t \<noteq> []" "scripts t \<noteq> []" "request (last (scripts t)) = d"
    unfolding chained_def by blast
  show "request (last (scripts t)) = d" by (rule r(7))
  obtain u q' where q: "scriptsToLoad t = u # q'" using r(5) by (cases "scriptsToLoad t") auto
  define t1 where "t1 = updateResult d b v t"
  define dn where "dn = length (heap t)"
  have h1: "heap t1 = (heap t)[d := (heap t ! d)\<lparr>fired := True, result := v, hadError := \<not> b\<rparr>]"
    using d by (simp add: t1_def updateResult_def)
  have len1: "length (heap t1) = dn" by (simp add: h1 dn_def)
  have p1: "d < length (heap t1)" "fired (heap t1 ! d)" "\<not> blocked (heap t1 ! d)"
    "sequence (heap t1 ! d) = popEntry opts # rest" "scriptsToLoad t1 = u # q'"
    using d r q by (simp_all add: h1) (simp add: t1_def)
  note fc = fire_chained [OF p1, folded t1_def t'_def, unfolded len1]
  have sc1: "scripts t1 = scripts t" by (simp add: t1_def)
  have same: "heap t' ! k = heap t ! k" if "k < dn" "k \<noteq> d" for k
    using fc(6) that by (simp add: h1 t'_def t1_def [symmetric])
  have fd: "fired (heap t' ! d)" using fc(4) p1(2) by (simp add: t'_def t1_def [symmetric])
  have mono: "fired (heap t' ! k)" if "k < dn" "fired (heap t ! k)" for k
    using that same fd by (cases "k = d") simp_all
  have len': "length (heap t') = Suc dn" using fc(3) by (simp add: t'_def t1_def [symmetric])
  have sc': "scripts t' = scripts t @ [loadNode u opts dn]"
    using fc(1) sc1 by (simp add: t'_def t1_def [symmetric])
  have q': "scriptsToLoad t' = q'" using fc(2) by (simp add: t'_def t1_def [symmetric])
  show "\<exists>u opts. scripts t' = scripts t @ [loadNode u opts (length (heap t))]"
    using sc' unfolding dn_def by blast
  show "\<forall>k < length (heap t). fired (heap t ! k) \<longrightarrow> fired (heap t' ! k)"
    using mono by (simp add: dn_def)
  show "hasFired t' d" using fd d len' by (simp add: hasFired_def dn_def)
  show "length (heap t) \<le> length (heap t')" by (simp add: len' dn_def)
  have qm: "quiet t' es" if "quiet t es" for es
    using that len' mono by (intro quiet_mono [of t es es t']) (auto simp: dn_def)
  show "wf t'"
    unfolding wf_def
  proof (intro conjI allI impI)
    fix i assume "i < length (scripts t')"
    then show "request (scripts t' ! i) < length (heap t')"
      using wf_request [OF wf, of i] by (auto simp: sc' len' nth_append dn_def less_Suc_eq)
  next
    have "\<forall>x \<in> set (map request (scripts t)). x < dn"
      using wf_request [OF wf] by (auto simp: in_set_conv_nth dn_def)
    then have "dn \<notin> set (map request (scripts t))" by blast
    then show "distinct (map request (scripts t'))" using wf by (simp add: sc' wf_def)
  next
    fix k assume "k < length (heap t')"
    then have k: "k < Suc dn" by (simp add: len')
    consider "k = dn" | "k = d" | "k < dn" "k \<noteq> d" using k by linarith
    then show "quiet t' (sequence (heap t' ! k)) \<or> chained t' k"
    proof cases
      case 1
      have hn: "heap t' ! dn = new_Deferred\<lparr>sequence := (if q' \<noteq> [] then [popEntry opts] else [])
                                      @ [(Some (Continue d True), Some (Continue d False))],
                        blocking := True\<rparr>"
        using fc(5) by (simp add: t'_def t1_def [symmetric])
      have qc: "quiet t' [(Some (Continue d True), Some (Continue d False))]"
        using fd d len' by (simp add: quiet_def dn_def)
      show ?thesis
      proof (cases "q' = []")
        case True
        then show ?thesis using qc by (simp add: 1 hn)
      next
        case False
        then have "chained t' dn"
          unfolding chained_def using qc q' by (auto simp: hn sc' new_Deferred_def)
        then show ?thesis by (simp add: 1)
      qed
    next
      case 2
      have "sequence (heap t' ! d) = rest" using fc(4) by (simp add: t'_def t1_def [symmetric])
      then show ?thesis using qm [OF r(2)] by (simp add: 2)
    next
      case 3
      have "\<not> chained t k" using r(7) 3(2) by (auto simp: chained_def)
      then have "quiet t (sequence (heap t ! k))" using wf_shape [OF wf, of k] 3(1) by (auto simp: dn_def)
      then show ?thesis using qm same [OF 3] by simp
    qed
  qed
qed

text \<open>Completing a load: the common part of \<open>callback\<close> and \<open>errback\<close> on its Deferred.\<close>

lemma complete:
  fixes b :: bool and v :: jsval
  assumes wf: "wf t" and n: "n < length (scripts t)"
  defines "d \<equiv> request (scripts t ! n)"
  defines "t' \<equiv> (case settle d b v t of None \<Rightarrow> t | Some (wake, t1) \<Rightarrow> fire wake t1)"
  shows "wf t'"
    and "(scripts t' = scripts t \<and> scriptsToLoad t' = scriptsToLoad t)
         \<or> (Suc n = length (scripts t) \<and>
             (\<exists>u opts. scripts t' = scripts t @ [loadNode u opts (length (heap t))]))"
    and "hasFired t' d"
    and "\<forall>k < length (heap t). fired (heap t ! k) \<longrightarrow> fired (heap t' ! k)"
    and "length (heap t) \<le> length (heap t')"
proof -
  have d: "d < length (heap t)" unfolding d_def by (rule wf_request [OF wf n])
  have "wf t' \<and> ((scripts t' = scripts t \<and> scriptsToLoad t' = scriptsToLoad t)
         \<or> (Suc n = length (scripts t) \<and>
             (\<exists>u opts. scripts t' = scripts t @ [loadNode u opts (length (heap t))])))
        \<and> hasFired t' d \<and> (\<forall>k < length (heap t). fired (heap t ! k) \<longrightarrow> fired (heap t' ! k))
        \<and> length (heap t) \<le> length (heap t')"
  proof (cases "fired (heap t ! d)")
    case True
    then have "t' = t" using d by (simp add: t'_def settle_def hasFired_def)
    then show ?thesis using wf True d by (simp add: hasFired_def)
  next
    case False
    then have t': "t' = fire [d] (updateResult d b v t)"
      by (simp add: t'_def settle_def hasFired_def)
    from wf_shape [OF wf d] show ?thesis
    proof
      assume q: "quiet t (sequence (heap t ! d))"
      from complete_quiet [OF wf d False q, of b v] show ?thesis by (simp add: t')
    next
      assume ch: "chained t d"
      note cc = complete_chained(1,2,4,5,6) [OF wf d ch, of b v]
      have "Suc n = length (scripts t)"
        using wf_last [OF wf n] complete_chained(3) [OF wf d ch] by (simp add: d_def)
      with cc show ?thesis by (simp add: t')
    qed
  qed
  then show "wf t'"
    and "(scripts t' = scripts t \<and> scriptsToLoad t' = scriptsToLoad t)
         \<or> (Suc n = length (scripts t) \<and>
             (\<exists>u opts. scripts t' = scripts t @ [loadNode u opts (length (heap t))]))"
    and "hasFired t' d"
    and "\<forall>k < length (heap t). fired (heap t ! k) \<longrightarrow> fired (heap t' ! k)"
    and "length (heap t) \<le> length (heap t')"
    by blast+
qed

lemma quiet_heap_cong: "heap s' = heap s \<Longrightarrow> quiet s' es = quiet s es"
proof -
  assume h: "heap s' = heap s"
  have "quietCb s' c = quietCb s c" for c
    using h by (cases "(s, c)" rule: quietCb.cases) auto
  then show ?thesis by (simp add: quiet_def)
qed

lemma wf_cong:
  assumes "wf s" and "heap s' = heap s" and "scriptsToLoad s' = scriptsToLoad s"
    and "map request (scripts s') = map request (scripts s)"
  shows "wf s'"
proof -
  have len: "length (scripts s') = length (scripts s)"
    using assms(4) by (metis length_map)
  have rq: "request (scripts s' ! i) = request (scripts s ! i)" if "i < length (scripts s)" for i
    using assms(4) that len by (metis nth_map)
  have ne: "scripts s' \<noteq> [] \<longleftrightarrow> scripts s \<noteq> []" using len by auto
  have lst: "request (last (scripts s')) = request (last (scripts s))" if "scripts s \<noteq> []"
    using that ne assms(4) by (metis last_map)
  have ch: "chained s' d" if "chained s d" for d
    using that assms(2,3) ne lst quiet_heap_cong [OF assms(2)] unfolding chained_def by auto
  show ?thesis
    unfolding wf_def
  proof (intro conjI allI impI)
    fix i assume "i < length (scripts s')"
    then show "request (scripts s' ! i) < length (heap s')"
      using wf_request [OF assms(1), of i] rq len assms(2) by simp
  next
    show "distinct (map request (scripts s'))" using assms(1,4) by (simp add: wf_def)
  next
    fix d assume "d < length (heap s')"
    then show "quiet s' (sequence (heap s' ! d)) \<or> chained s' d"
      using wf_shape [OF assms(1), of d] ch quiet_heap_cong [OF assms(2)] assms(2) by auto
  qed
qed

text \<open>
  The effect of a completion event on load \<open>n\<close>: \<open>cleanup_\<close> (state \<open>t\<close>, the handlers of
  \<open>n\<close> replaced) and then \<open>callback\<close> or \<open>errback\<close> on the load's Deferred.
\<close>

lemma completion_step:
  fixes b :: bool and v :: jsval
  assumes wf: "wf s" and fin: "finished s" and n: "n < length (scripts s)"
    and heap: "heap t = heap s" and queue: "scriptsToLoad t = scriptsToLoad s"
    and len: "length (scripts t) = length (scripts s)"
    and rq: "\<forall>i < length (scripts s). request (scripts t ! i) = request (scripts s ! i)"
    and hd: "\<forall>i < length (scripts s). i \<noteq> n \<longrightarrow> handlers (scripts t ! i) = handlers (scripts s ! i)"
    and hn: "\<not> handlers (scripts t ! n)"
  defines "s' \<equiv> (case settle (request (scripts t ! n)) b v t of
                    None \<Rightarrow> t | Some (wake, t1) \<Rightarrow> fire wake t1)"
  shows "wf s'" and "finished s'" and "done_mono s s'"
    and "length (scripts s') \<le> Suc (length (scripts s))"
    and "length (scripts s) < length (scripts s') \<longrightarrow>
           scripts s \<noteq> [] \<and> \<not> handlers (scripts s' ! (length (scripts s) - 1))"
proof -
  have mr: "map request (scripts t) = map request (scripts s)"
    using len rq by (intro nth_equalityI) simp_all
  have wft: "wf t" by (rule wf_cong [OF wf heap queue mr])
  have nt: "n < length (scripts t)" using n len by simp
  note c = complete [OF wft nt, of b v, folded s'_def]
  show "wf s'" by (rule c(1))
  have mono: "fired (heap s' ! k)" if "k < length (heap s)" "fired (heap s ! k)" for k
    using c(4) that heap by simp
  have lenh: "length (heap s) \<le> length (heap s')" using c(5) heap by simp
  from c(2) show "length (scripts s') \<le> Suc (length (scripts s))" using len by auto
  from c(2) show "done_mono s s'"
    unfolding done_mono_def using len rq hd hn by (auto simp: nth_append)
  show "length (scripts s) < length (scripts s') \<longrightarrow>
           scripts s \<noteq> [] \<and> \<not> handlers (scripts s' ! (length (scripts s) - 1))"
  proof
    assume "length (scripts s) < length (scripts s')"
    with c(2) len obtain u opts where sn: "Suc n = length (scripts t)"
      and sc: "scripts s' = scripts t @ [loadNode u opts (length (heap t))]" by auto
    have "length (scripts s) - 1 = n" using sn len by simp
    moreover have "scripts s' ! n = scripts t ! n" using nt by (simp add: sc nth_append)
    ultimately show "scripts s \<noteq> [] \<and> \<not> handlers (scripts s' ! (length (scripts s) - 1))"
      using hn n by auto
  qed
  show "finished s'"
    unfolding finished_def
  proof (intro allI impI)
    fix i assume i: "i < length (scripts s')" and h: "\<not> handlers (scripts s' ! i)"
    from c(2) have il: "i < length (scripts t)" and e: "scripts s' ! i = scripts t ! i"
      using i h by (auto simp: nth_append less_Suc_eq)
    show "hasFired s' (request (scripts s' ! i))"
    proof (cases "i = n")
      case True
      then show ?thesis using c(3) e by simp
    next
      case False
      have "\<not> handlers (scripts s ! i)" using h e hd il len False by simp
      then have "hasFired s (request (scripts s ! i))" using fin il len by (simp add: finished_def)
      then have "hasFired s' (request (scripts s ! i))"
        using mono lenh by (auto simp: hasFired_def)
      then show ?thesis using e rq il len by simp
    qed
  qed
qed

lemma hasFired_cong: "heap s' = heap s \<Longrightarrow> hasFired s' d = hasFired s d"
  by (simp add: hasFired_def)

lemma advance_flags:
  assumes "wf s" and "finished s" and "heap s' = heap s" and "scriptsToLoad s' = scriptsToLoad s"
    and "length (scripts s') = length (scripts s)"
    and "\<forall>i < length (scripts s). request (scripts s' ! i) = request (scripts s ! i)
            \<and> handlers (scripts s' ! i) = handlers (scripts s ! i)"
  shows "advance s s'"
proof -
  have mr: "map request (scripts s') = map request (scripts s)"
    using assms(5,6) by (intro nth_equalityI) simp_all
  have "wf s'" by (rule wf_cong [OF assms(1,3,4) mr])
  moreover have "finished s'"
    using assms(2,5,6) hasFired_cong [OF assms(3)] by (simp add: finished_def)
  moreover have "done_mono s s'" using assms(5,6) by (simp add: done_mono_def)
  ultimately show ?thesis using assms(5) by (simp add: advance_def)
qed

lemma advance_refl: "wf s \<Longrightarrow> finished s \<Longrightarrow> advance s s"
  by (rule advance_flags) simp_all

lemma nth_update_sel:
  "i < length xs \<Longrightarrow> f (xs[n := y] ! i) = (if i = n then f y else f (xs ! i))"
  by (simp add: nth_list_update)

lemma cleanup_props:
  assumes "n < length (scripts s)"
  shows "heap (cleanup n r c s) = heap s" "scriptsToLoad (cleanup n r c s) = scriptsToLoad s"
    "length (scripts (cleanup n r c s)) = length (scripts s)"
    "\<forall>i < length (scripts s). request (scripts (cleanup n r c s) ! i) = request (scripts s ! i)"
    "\<forall>i < length (scripts s). i \<noteq> n \<longrightarrow>
        handlers (scripts (cleanup n r c s) ! i) = handlers (scripts s ! i)"
    "\<not> handlers (scripts (cleanup n r c s) ! n)"
  using assms
  by (simp_all add: cleanup_def Let_def nth_update_sel [where f = request]
      nth_update_sel [where f = handlers])

lemma advance_completion:
  fixes b :: bool and v :: jsval
  assumes wf: "wf s" and fin: "finished s" and n: "n < length (scripts s)"
    and heap: "heap t = heap s" and queue: "scriptsToLoad t = scriptsToLoad s"
    and len: "length (scripts t) = length (scripts s)"
    and rq: "\<forall>i < length (scripts s). request (scripts t ! i) = request (scripts s ! i)"
    and hd: "\<forall>i < length (scripts s). i \<noteq> n \<longrightarrow> handlers (scripts t ! i) = handlers (scripts s ! i)"
    and hn: "\<not> handlers (scripts t ! n)"
  shows "advance s (case settle (request (scripts t ! n)) b v t of
                    None \<Rightarrow> t | Some (wake, t1) \<Rightarrow> fire wake t1)"
  using completion_step [OF assms, of b v] by (simp add: advance_def)

lemma advance_host:
  assumes wf: "wf s" and fin: "finished s"
  shows "advance s (host e s)"
proof (cases e)
  case (Onload n rs)
  show ?thesis
  proof (cases "n < length (scripts s) \<and> handlers (scripts s ! n)
                \<and> (rs = NoReadyState \<or> rs = Loaded \<or> rs = Complete)")
    case True
    then have n: "n < length (scripts s)" by simp
    define t where "t = cleanup n (cleanupOption (scripts s ! n)) True s"
    note cp = cleanup_props [OF n, of "cleanupOption (scripts s ! n)" True, folded t_def]
    have "request (scripts t ! n) = request (scripts s ! n)" using cp(4) n by simp
    then have "host e s = (case settle (request (scripts t ! n)) True Null t of
                    None \<Rightarrow> t | Some (wake, t1) \<Rightarrow> fire wake t1)"
      using True unfolding t_def by (simp add: Onload callback_def)
    then show ?thesis using advance_completion [OF wf fin n cp, of True Null] by simp
  next
    case False
    then have "host e s = s" by (auto simp: Onload)
    then show ?thesis using advance_refl [OF wf fin] by simp
  qed
next
  case (Onerror n)
  show ?thesis
  proof (cases "n < length (scripts s) \<and> handlers (scripts s ! n)")
    case True
    then have n: "n < length (scripts s)" by simp
    define t where "t = cleanup n True True s"
    note cp = cleanup_props [OF n, of True True, folded t_def]
    have "request (scripts t ! n) = request (scripts s ! n)" using cp(4) n by simp
    then have "host e s = (case settle (request (scripts t ! n)) False (Error LOAD_ERROR) t of
                    None \<Rightarrow> t | Some (wake, t1) \<Rightarrow> fire wake t1)"
      using True unfolding t_def by (simp add: Onerror errback_def)
    then show ?thesis using advance_completion [OF wf fin n cp, of False "Error LOAD_ERROR"] by simp
  next
    case False
    then have "host e s = s" by (auto simp: Onerror)
    then show ?thesis using advance_refl [OF wf fin] by simp
  qed
next
  case (TimeoutFires n)
  show ?thesis
  proof (cases "n < length (scripts s) \<and> timer (scripts s ! n)")
    case True
    then have n: "n < length (scripts s)" by simp
    define s0 where "s0 = s\<lparr>scripts := (scripts s)[n := (scripts s ! n)\<lparr>timer := False\<rparr>]\<rparr>"
    define t where "t = cleanup n True False s0"
    have n0: "n < length (scripts s0)" using n by (simp add: s0_def)
    note cp = cleanup_props [OF n0, of True False, folded t_def]
    have s0: "heap s0 = heap s" "scriptsToLoad s0 = scriptsToLoad s"
      "length (scripts s0) = length (scripts s)"
      "\<forall>i < length (scripts s). request (scripts s0 ! i) = request (scripts s ! i)
            \<and> handlers (scripts s0 ! i) = handlers (scripts s ! i)"
      by (simp_all add: s0_def nth_update_sel [where f = request]
          nth_update_sel [where f = handlers])
    have t: "heap t = heap s" "scriptsToLoad t = scriptsToLoad s"
      "length (scripts t) = length (scripts s)"
      "\<forall>i < length (scripts s). request (scripts t ! i) = request (scripts s ! i)"
      "\<forall>i < length (scripts s). i \<noteq> n \<longrightarrow> handlers (scripts t ! i) = handlers (scripts s ! i)"
      "\<not> handlers (scripts t ! n)"
      using cp s0 by simp_all
    have "request (scripts t ! n) = request (scripts s ! n)" using t(4) n by simp
    then have "host e s = (case settle (request (scripts t ! n)) False (Error TIMEOUT) t of
                    None \<Rightarrow> t | Some (wake, t1) \<Rightarrow> fire wake t1)"
      using True unfolding t_def s0_def by (simp add: TimeoutFires errback_def)
    then show ?thesis using advance_completion [OF wf fin n t, of False "Error TIMEOUT"] by simp
  next
    case False
    then have "host e s = s" by (auto simp: TimeoutFires)
    then show ?thesis using advance_refl [OF wf fin] by simp
  qed
next
  case (RemoveNodeTask n)
  show ?thesis
    unfolding RemoveNodeTask
    by (rule advance_flags [OF wf fin])
       (simp_all add: nth_update_sel [where f = request] nth_update_sel [where f = handlers])
qed

lemma quiet_append_heap:
  assumes "quiet s es" and "scripts s' = scripts s \<or> True" and "\<exists>D. heap s' = heap s @ [D]"
  shows "quiet s' es"
proof -
  from assms(3) obtain D where h: "heap s' = heap s @ [D]" by blast
  show ?thesis
    using assms(1) by (rule quiet_mono) (simp_all add: h nth_append)
qed

lemma wf_alloc:
  assumes wf: "wf s" and h: "heap s' = heap s @ [D]"
    and q: "scriptsToLoad s' = scriptsToLoad s" and sc: "scripts s' = scripts s"
    and D: "sequence D = []"
  shows "wf s'"
  unfolding wf_def
proof (intro conjI allI impI)
  fix i assume "i < length (scripts s')"
  then show "request (scripts s' ! i) < length (heap s')"
    using wf_request [OF wf, of i] by (simp add: sc h)
next
  show "distinct (map request (scripts s'))" using wf by (simp add: sc wf_def)
next
  fix d assume d: "d < length (heap s')"
  have qm: "quiet s' es" if "quiet s es" for es
    using that by (rule quiet_append_heap) (simp_all add: h)
  show "quiet s' (sequence (heap s' ! d)) \<or> chained s' d"
  proof (cases "d < length (heap s)")
    case True
    then have e: "heap s' ! d = heap s ! d" by (simp add: h nth_append)
    from wf_shape [OF wf True] show ?thesis
    proof
      assume "quiet s (sequence (heap s ! d))"
      then show ?thesis using qm e by simp
    next
      assume "chained s d"
      then have "chained s' d" unfolding chained_def using e q sc qm by auto
      then show ?thesis ..
    qed
  next
    case False
    then have "d = length (heap s)" using d by (simp add: h)
    then show ?thesis by (simp add: h D quiet_def)
  qed
qed

lemma chained_queue:
  assumes "chained s d" and "heap s' = heap s" and "scripts s' = scripts s"
    and "scriptsToLoad s' \<noteq> []"
  shows "chained s' d"
proof -
  from assms(1) obtain opts rest where
    r: "sequence (heap s ! d) = popEntry opts # rest" "quiet s rest"
       "\<not> fired (heap s ! d)" "\<not> blocked (heap s ! d)"
       "scripts s \<noteq> []" "request (last (scripts s)) = d"
    unfolding chained_def by blast
  have "quiet s' rest" using r(2) quiet_heap_cong [OF assms(2)] by simp
  then show ?thesis unfolding chained_def using r assms(2,3,4) by auto
qed

lemma advance_safeLoadMany:
  assumes wf: "wf s" and fin: "finished s"
  shows "advance s (snd (safeLoadMany uris opts s))"
proof (cases uris)
  case Nil
  define s' where "s' = s\<lparr>heap := heap s @ [new_Deferred\<lparr>fired := True, result := Null\<rparr>]\<rparr>"
  have e: "snd (safeLoadMany uris opts s) = s'"
    by (simp add: Nil safeLoadMany_Nil s'_def)
  have "wf s'"
    by (rule wf_alloc [OF wf, where D = "new_Deferred\<lparr>fired := True, result := Null\<rparr>"])
       (simp_all add: s'_def new_Deferred_def)
  moreover have "finished s'"
    using fin by (auto simp: finished_def s'_def hasFired_def nth_append)
  moreover have "done_mono s s'" by (simp add: done_mono_def s'_def)
  ultimately show ?thesis by (simp add: e advance_def) (simp add: s'_def)
next
  case (Cons u rest)
  show ?thesis
  proof (cases "scriptsToLoad s = []")
    case False
    define s' where "s' = s\<lparr>scriptsToLoad := scriptsToLoad s @ uris\<rparr>"
    have e: "snd (safeLoadMany uris opts s) = s'"
      using False by (simp add: Cons safeLoadMany_join s'_def)
    have ch: "chained s' d" if "chained s d" for d
      using that by (rule chained_queue) (use False in \<open>simp_all add: s'_def\<close>)
    have "wf s'"
      unfolding wf_def
    proof (intro conjI allI impI)
      fix d assume "d < length (heap s')"
      then show "quiet s' (sequence (heap s' ! d)) \<or> chained s' d"
        using wf_shape [OF wf, of d] ch quiet_heap_cong [of s' s] by (auto simp: s'_def)
    qed (use wf in \<open>simp_all add: wf_def s'_def\<close>)
    moreover have "finished s'" using fin by (simp add: finished_def s'_def hasFired_def)
    moreover have "done_mono s s'" by (simp add: done_mono_def s'_def)
    ultimately show ?thesis by (simp add: e advance_def) (simp add: s'_def)
  next
    case True
    define dn where "dn = length (heap s)"
    define Dn where "Dn = new_Deferred\<lparr>sequence :=
                  (if rest \<noteq> [] then [popEntry opts] else [])\<rparr>"
    define s' where "s' = s\<lparr>scriptsToLoad := rest, heap := heap s @ [Dn],
        scripts := scripts s @ [loadNode u opts dn], scriptLoadingDeferred := Ref dn\<rparr>"
    have e: "snd (safeLoadMany uris opts s) = s'"
      using True by (simp add: Cons safeLoadMany_fresh s'_def Dn_def dn_def popEntry_def)
    have noch: "\<not> chained s d" for d using True by (simp add: chained_def)
    have qm: "quiet s' es" if "quiet s es" for es
      using that by (rule quiet_append_heap) (simp_all add: s'_def)
    have "wf s'"
      unfolding wf_def
    proof (intro conjI allI impI)
      fix i assume "i < length (scripts s')"
      then show "request (scripts s' ! i) < length (heap s')"
        using wf_request [OF wf, of i] by (auto simp: s'_def nth_append dn_def less_Suc_eq)
    next
      have "\<forall>x \<in> set (map request (scripts s)). x < dn"
        using wf_request [OF wf] by (auto simp: in_set_conv_nth dn_def)
      then have "dn \<notin> set (map request (scripts s))" by blast
      then show "distinct (map request (scripts s'))" using wf by (simp add: s'_def wf_def)
    next
      fix d assume d: "d < length (heap s')"
      show "quiet s' (sequence (heap s' ! d)) \<or> chained s' d"
      proof (cases "d < dn")
        case True
        then have "heap s' ! d = heap s ! d" by (simp add: s'_def nth_append dn_def)
        moreover have "quiet s (sequence (heap s ! d))"
          using wf_shape [OF wf, of d] True noch by (simp add: dn_def)
        ultimately show ?thesis using qm by simp
      next
        case False
        then have dd: "d = dn" using d by (simp add: s'_def dn_def)
        have hn: "heap s' ! dn = Dn" by (simp add: s'_def dn_def)
        show ?thesis
        proof (cases "rest = []")
          case True
          then show ?thesis by (simp add: dd hn Dn_def quiet_def)
        next
          case False
          then have "chained s' dn"
            unfolding chained_def by (auto simp: hn Dn_def new_Deferred_def quiet_def) (simp_all add: s'_def)
          then show ?thesis by (simp add: dd)
        qed
      qed
    qed
    moreover have "finished s'"
      using fin by (auto simp: finished_def s'_def hasFired_def nth_append less_Suc_eq)
    moreover have "done_mono s s'" by (simp add: done_mono_def s'_def nth_append)
    ultimately show ?thesis using True by (simp add: e advance_def) (simp add: s'_def)
  qed
qed

lemma advance_step: "wf s \<Longrightarrow> finished s \<Longrightarrow> advance s (step s a)"
  by (cases a) (simp_all add: advance_safeLoadMany advance_host)

lemma wf_init: "wf init" and finished_init: "finished init"
  by (simp_all add: wf_def finished_def init_def)

lemma reachable_shape: "wf (run as init) \<and> finished (run as init)"
proof (induction as rule: rev_induct)
  case Nil
  then show ?case by (simp add: run_def wf_init finished_init)
next
  case (snoc a as)
  have "run (as @ [a]) init = step (run as init) a" by (simp add: run_def)
  with snoc advance_step [of "run as init" a] show ?case by (simp add: advance_def)
qed





subsection \<open>Two submissions, the second while the first batch's last load is outstanding\<close>

text \<open>
  Claim C1 (at most one drain at a time; no second drain while a submitted load is
  outstanding) does not hold of the code. \<open>safeLoadMany\<close> decides whether another batch is
  loading by the length of the pending queue. The queue is already empty while the last URI
  popped from it is still loading, so a batch submitted then starts a second chain: its
  first load is issued at once, next to the outstanding one, and the caller gets a new
  handle, not the stored one. Here \<open>b\<close> is submitted while \<open>a\<close> is loading: both loads are
  outstanding, and the two calls return different handles.
\<close>

theorem second_drain_started:
  "(let (h1, s1) = safeLoadMany [''a''] None init;
        (h2, s2) = safeLoadMany [''b''] None s1
    in h1 = Ref 0 \<and> h2 = Ref 1 \<and> scriptsToLoad s1 = []
       \<and> map src (scripts s2) = [''a'', ''b'']
       \<and> map handlers (scripts s2) = [True, True]
       \<and> outcome s2 0 = Pending \<and> outcome s2 1 = Pending)"
  by (simp add: safeLoadMany_def init_def popAndLoadNextScript_def safeLoad_eq push_def outcome_def
      new_Deferred_def Let_def DEFAULT_TIMEOUT_def)

text \<open>
  Claim C3 (a batch submitted while another is draining gets the same handle, which settles
  only when the combined queue has been loaded) does not hold of the code, for the same
  reason. Here \<open>b, c\<close> are submitted while \<open>a\<close> is loading: the second caller gets a
  handle of its own, and the first caller's handle settles when \<open>a\<close> has loaded, while
  \<open>b\<close> is still loading and \<open>c\<close> is still pending in the queue.
\<close>

theorem handle_settles_early:
  "(let (h1, s1) = safeLoadMany [''a''] None init;
        (h2, s2) = safeLoadMany [''b'', ''c''] None s1;
        s3 = host (Onload 0 NoReadyState) s2
    in h1 = Ref 0 \<and> h2 = Ref 1 \<and> h2 \<noteq> h1
       \<and> outcome s3 0 = Succeeded Null \<and> outcome s3 1 = Pending
       \<and> scriptsToLoad s3 = [''c'']
       \<and> map handlers (scripts s3) = [False, True])"
  by code_simp

subsection \<open>Timeout: what firing a Deferred never undoes\<close>

lemma grows_refl: "grows s s"
  by (simp add: grows_def)

lemma grows_trans:
  assumes "grows s s'" and "grows s' s''"
  shows "grows s s''"
proof -
  have "prefix (scripts s) (scripts s'')"
    using assms by (meson grows_def prefix_order.trans)
  moreover have "fired (heap s'' ! d)" if "d < length (heap s)" "fired (heap s ! d)" for d
  proof -
    have "d < length (heap s')" "fired (heap s' ! d)" using assms(1) that by (auto simp: grows_def)
    then show ?thesis using assms(2) by (simp add: grows_def)
  qed
  ultimately show ?thesis using assms by (simp add: grows_def)
qed

lemma grows_update:
  assumes "d < length (heap s) \<longrightarrow> fired (heap s ! d) \<longrightarrow> fired D"
  shows "grows s (s\<lparr>heap := (heap s)[d := D]\<rparr>)"
  using assms by (cases "d < length (heap s)") (auto simp: grows_def nth_list_update list_update_beyond)

lemma grows_push: "grows s (push d e s)"
  unfolding push_def by (auto intro: grows_update grows_refl)

lemma grows_updateResult: "grows s (updateResult d b v s)"
  unfolding updateResult_def by (auto intro: grows_update grows_refl)

lemma grows_setBlocking: "grows s (setBlocking d s)"
  unfolding setBlocking_def by (auto intro: grows_update grows_refl)

lemma grows_blockOn: "grows s (snd (blockOn d i s))"
proof -
  define s1 where "s1 = s\<lparr>heap := (heap s)[d := (heap s ! d)
                     \<lparr>result := Ref i, hadError := False, blocked := True\<rparr>]\<rparr>"
  have "grows s s1" unfolding s1_def by (rule grows_update) simp
  moreover have "grows s1 (push i (Some (Continue d True), Some (Continue d False)) s1)"
    by (rule grows_push)
  moreover have "grows (push i (Some (Continue d True), Some (Continue d False)) s1)
      (setBlocking i (push i (Some (Continue d True), Some (Continue d False)) s1))"
    by (rule grows_setBlocking)
  moreover have "snd (blockOn d i s) = setBlocking i (push i (Some (Continue d True), Some (Continue d False)) s1)"
    by (simp add: blockOn_def Let_def s1_def)
  ultimately show ?thesis by (metis grows_trans)
qed

lemma grows_settle: "settle d b v s = Some (w, s') \<Longrightarrow> grows s s'"
  by (auto simp: settle_def grows_updateResult split: if_splits)

lemma grows_pop: "popAndLoadNextScript opts s = Some (d, s') \<Longrightarrow> grows s s'"
proof -
  assume a: "popAndLoadNextScript opts s = Some (d, s')"
  then obtain u rest where q: "scriptsToLoad s = u # rest"
    by (auto simp: popAndLoadNextScript_def split: list.splits)
  show ?thesis using a unfolding pop_Cons [OF q] by (auto simp: grows_def nth_append)
qed

lemma grows_verifyObjs: "grows s s' \<Longrightarrow> grows s (s'\<lparr>verifyObjs := r\<rparr>)"
  by (simp add: grows_def)

lemma grows_run_callback: "run_callback c res s = (r, s') \<Longrightarrow> grows s s'"
proof (cases c)
  case (PopAndLoadNextScript opts)
  assume "run_callback c res s = (r, s')"
  with PopAndLoadNextScript show ?thesis
    by (auto split: option.splits intro: grows_refl dest: grows_pop)
next
  case (Continue p b)
  assume a: "run_callback c res s = (r, s')"
  show ?thesis
  proof (cases "p < length (heap s)")
    case True
    have "grows s (s\<lparr>heap := (heap s)[p := (heap s ! p)\<lparr>blocked := False\<rparr>]\<rparr>)"
      by (rule grows_update) simp
    then have "grows s (updateResult p b res (s\<lparr>heap := (heap s)[p := (heap s ! p)\<lparr>blocked := False\<rparr>]\<rparr>))"
      using grows_updateResult grows_trans by blast
    with a Continue True show ?thesis by simp
  next
    case False
    with a Continue show ?thesis by (simp add: grows_refl)
  qed
next
  case (VerifyCallback name w)
  assume "run_callback c res s = (r, s')"
  with VerifyCallback show ?thesis
    by (auto split: option.splits intro: grows_refl grows_verifyObjs dest: grows_settle)
next
  case (VerifyErrback name w)
  assume a: "run_callback c res s = (r, s')"
  define s1 where "s1 = (if verifyObjs s name \<noteq> None
                then s\<lparr>verifyObjs := (verifyObjs s)(name := None)\<rparr> else s)"
  have g1: "grows s s1" by (simp add: s1_def grows_def)
  have rc: "run_callback c res s =
      (case settle w False res s1 of
         None \<Rightarrow> (Threw (Exception ''AlreadyCalledError''), s1)
       | Some (wake, s2) \<Rightarrow> (Returned Undefined wake, s2))"
    unfolding VerifyErrback s1_def by (auto simp: Let_def)
  show ?thesis
  proof (cases "settle w False res s1")
    case None
    with a rc have "s' = s1" by simp
    with g1 show ?thesis by simp
  next
    case (Some p)
    obtain wk s2 where p: "p = (wk, s2)" by (cases p)
    with a rc Some have "s' = s2" by simp
    with Some p g1 grows_settle [of w False res s1 wk s2] show ?thesis
      using grows_trans by blast
  qed
qed

lemma grows_fire_step: "fire_step d s = (w, s') \<Longrightarrow> grows s s'"
proof -
  assume a: "fire_step d s = (w, s')"
  define s1 where "s1 = s\<lparr>heap := (heap s)[d := (heap s ! d)\<lparr>sequence := tl (sequence (heap s ! d))\<rparr>]\<rparr>"
  have g1: "grows s s1" unfolding s1_def by (rule grows_update) simp
  obtain cb eb where hd: "hd (sequence (heap s ! d)) = (cb, eb)" by (cases "hd (sequence (heap s ! d))")
  define f where "f = (if hadError (heap s ! d) then eb else cb)"
  show ?thesis
  proof (cases f)
    case None
    with a hd g1 show ?thesis
      by (auto simp: fire_step_def Let_def s1_def [symmetric] f_def [symmetric])
  next
    case (Some c)
    obtain r s2 where rc: "run_callback c (result (heap s ! d)) s1 = (r, s2)"
      by (cases "run_callback c (result (heap s ! d)) s1")
    have g2: "grows s s2" using grows_run_callback [OF rc] g1 grows_trans by blast
    have g3: "grows s (s2\<lparr>heap := (heap s2)[d := (heap s2 ! d)\<lparr>result := x, hadError := y\<rparr>]\<rparr>)" for x y
    proof -
      have "grows s2 (s2\<lparr>heap := (heap s2)[d := (heap s2 ! d)\<lparr>result := x, hadError := y\<rparr>]\<rparr>)"
        by (rule grows_update) simp
      with g2 show ?thesis by (rule grows_trans)
    qed
    have g4: "grows s y" if "blockOn d i s2 = (x, y)" for i x y
      using g2 grows_blockOn [of s2 d i] that grows_trans by fastforce
    show ?thesis
    proof (cases r)
      case (Threw ex)
      with a hd Some rc g3 show ?thesis
        by (auto simp: fire_step_def Let_def s1_def [symmetric] f_def [symmetric])
    next
      case (Returned ret wk)
      with a hd Some rc g2 g3 g4 show ?thesis
        by (cases ret)
           (auto simp: fire_step_def Let_def s1_def [symmetric] f_def [symmetric] split: prod.splits)
    qed
  qed
qed

lemma grows_fire: "grows s (fire work s)"
proof (induction work s rule: fire.induct)
  case (1 s)
  then show ?case by (simp add: grows_refl)
next
  case (2 d work s)
  show ?case
  proof (cases "runnable s d")
    case True
    obtain w s' where fs: "fire_step d s = (w, s')" by (cases "fire_step d s")
    have "grows s' (fire (w @ d # work) s')" using 2(1) [OF True fs [symmetric]] .
    with grows_fire_step [OF fs] have "grows s (fire (w @ d # work) s')" by (rule grows_trans)
    with fs True show ?thesis by (simp add: fire_run)
  next
    case False
    with 2(2) show ?thesis by (simp add: fire_skip)
  qed
qed

subsection \<open>Timeout: the outcome of the load's Deferred\<close>

lemma quiet_not_waiting:
  assumes "quiet s es" and "e \<in> set es" and "fst e = Some (Continue d b) \<or> snd e = Some (Continue d b)"
  shows "d < length (heap s) \<and> fired (heap s ! d)"
proof -
  have "quietCb s (fst e)" "quietCb s (snd e)" using assms(1,2) by (simp_all add: quiet_def)
  with assms(3) show ?thesis by auto
qed

lemma wf_not_waiting:
  assumes wf: "wf s" and nf: "\<not> fired (heap s ! d)"
  shows "\<not> waiting s d"
proof
  assume "waiting s d"
  then obtain k e b where k: "k < length (heap s)" and e: "e \<in> set (sequence (heap s ! k))"
    and c: "fst e = Some (Continue d b) \<or> snd e = Some (Continue d b)"
    unfolding waiting_def by blast
  from wf_shape [OF wf k] show False
  proof
    assume "quiet s (sequence (heap s ! k))"
    from quiet_not_waiting [OF this e c] nf show False by simp
  next
    assume "chained s k"
    then obtain opts rest where r: "sequence (heap s ! k) = popEntry opts # rest" "quiet s rest"
      unfolding chained_def by blast
    from e r(1) c have "e \<in> set rest" by (auto simp: popEntry_def)
    from quiet_not_waiting [OF r(2) this c] nf show False by simp
  qed
qed

lemma waiting_calm:
  assumes "calm s s'" and "waiting s' d"
  shows "waiting s d"
proof -
  from assms(2) obtain k e b where k: "k < length (heap s')" and e: "e \<in> set (sequence (heap s' ! k))"
    and c: "fst e = Some (Continue d b) \<or> snd e = Some (Continue d b)"
    unfolding waiting_def by blast
  have k': "k < length (heap s)" using k calm_length [OF assms(1)] by simp
  have "set (sequence (heap s' ! k)) \<subseteq> set (sequence (heap s ! k))"
  proof (cases "fired (heap s ! k)")
    case True
    then show ?thesis by (rule calm_sequence [OF assms(1) k'])
  next
    case False
    then show ?thesis using calm_unfired [OF assms(1) k'] by simp
  qed
  with e have "e \<in> set (sequence (heap s ! k))" by blast
  with k' c show ?thesis unfolding waiting_def by blast
qed

lemma outcome_update_other:
  "d \<noteq> p \<Longrightarrow> outcome (s\<lparr>heap := (heap s)[p := D]\<rparr>) d = outcome s d"
  by (simp add: outcome_def)

lemma outcome_update_sequence:
  "outcome (s\<lparr>heap := (heap s)[k := (heap s ! k)\<lparr>sequence := es\<rparr>]\<rparr>) d = outcome s d"
  by (cases "d = k") (auto simp: outcome_def)

lemma fire_step_outcome:
  assumes r: "runnable s k" and q: "quiet s (sequence (heap s ! k))" and nw: "\<not> waiting s d"
  shows "outcome (snd (fire_step k s)) d = outcome s d"
proof -
  define D where "D = heap s ! k"
  define s1 where "s1 = s\<lparr>heap := (heap s)[k := D\<lparr>sequence := tl (sequence D)\<rparr>]\<rparr>"
  from r have k: "k < length (heap s)" and ne: "sequence D \<noteq> []"
    by (simp_all add: runnable_def D_def)
  obtain cb eb where hd: "hd (sequence D) = (cb, eb)" by (cases "hd (sequence D)")
  have mem: "(cb, eb) \<in> set (sequence (heap s ! k))" using ne hd by (metis list.set_sel(1) D_def)
  then have qcb: "quietCb s cb" "quietCb s eb" using q by (auto simp: quiet_def)
  define c where "c = (if hadError D then eb else cb)"
  have qc: "quietCb s c" using qcb by (simp add: c_def)
  have o1: "outcome s1 d = outcome s d"
    unfolding s1_def D_def by (rule outcome_update_sequence)
  show ?thesis
  proof (cases c)
    case None
    have "fire_step k s = ([], s1)"
      using hd None by (simp add: fire_step_def Let_def D_def [symmetric] s1_def [symmetric] c_def [symmetric])
    then show ?thesis using o1 by simp
  next
    case (Some x)
    then obtain p b where x: "x = Continue p b" and p: "p < length (heap s)" "fired (heap s ! p)"
      using qc by (cases x) auto
    have "c = cb \<or> c = eb" by (simp add: c_def)
    then have "fst (cb, eb) = Some (Continue p b) \<or> snd (cb, eb) = Some (Continue p b)"
      using Some x by auto
    then have "waiting s p" unfolding waiting_def using k mem by blast
    then have pd: "d \<noteq> p" using nw by blast
    define s2 where "s2 = updateResult p b (result D)
              (s1\<lparr>heap := (heap s1)[p := (heap s1 ! p)\<lparr>blocked := False\<rparr>]\<rparr>)"
    have "run_callback x (result D) s1 = (Returned Undefined [p], s2)"
      using p by (simp add: x s2_def s1_def)
    then have fs: "fire_step k s = ([p], s2)"
      using hd Some by (simp add: fire_step_def Let_def D_def [symmetric] s1_def [symmetric] c_def [symmetric])
    have h2: "heap s2 = (heap s1)[p := (heap s1 ! p)\<lparr>blocked := False, fired := True,
                  result := result D, hadError := \<not> b\<rparr>]"
      using p by (simp add: s2_def updateResult_def s1_def)
    have "outcome s2 d = outcome s1 d" using pd by (simp add: outcome_def h2)
    then show ?thesis using fs o1 by simp
  qed
qed

lemma fire_outcome:
  assumes "allquiet s" and "\<forall>x \<in> set work. x < length (heap s) \<longrightarrow> fired (heap s ! x)"
    and "\<not> waiting s d"
  shows "outcome (fire work s) d = outcome s d"
  using assms
proof (induction work s rule: fire.induct)
  case (1 s)
  then show ?case by simp
next
  case (2 k work s)
  show ?case
  proof (cases "runnable s k")
    case False
    with 2(2) [OF False] 2(3,4,5) show ?thesis by (simp add: fire_skip)
  next
    case True
    then have k: "k < length (heap s)" by (simp add: runnable_def)
    with 2(4) have f: "fired (heap s ! k)" by simp
    with 2(3) k have q: "quiet s (sequence (heap s ! k))" by (simp add: allquiet_def)
    from fire_step_quiet [OF True f q]
    obtain wake s' where fs: "fire_step k s = (wake, s')" and c: "calm s s'"
      and w: "\<forall>p \<in> set wake. p < length (heap s) \<and> fired (heap s ! p)" by blast
    have aq: "allquiet s'" by (rule allquiet_calm [OF 2(3) c])
    have mono: "p < length (heap s) \<Longrightarrow> fired (heap s ! p) \<Longrightarrow> fired (heap s' ! p)" for p
      by (rule calm_fired [OF c])
    have len: "length (heap s') = length (heap s)" using c by (simp add: calm_def)
    have wk: "\<forall>x \<in> set (wake @ k # work). x < length (heap s') \<longrightarrow> fired (heap s' ! x)"
      using w 2(4) mono len by auto
    have nw: "\<not> waiting s' d" using waiting_calm [OF c] 2(5) by blast
    have "outcome (fire (wake @ k # work) s') d = outcome s' d"
      by (rule 2(1) [OF True fs [symmetric] aq wk nw])
    moreover have "outcome s' d = outcome s d"
      using fire_step_outcome [OF True q 2(5)] fs by simp
    ultimately show ?thesis using True fs by (simp add: fire_run)
  qed
qed

lemma allquiet_settle:
  assumes wf: "wf t" and d: "d < length (heap t)" and q: "quiet t (sequence (heap t ! d))"
  shows "allquiet (updateResult d b v t)"
proof -
  define t1 where "t1 = updateResult d b v t"
  have h1: "heap t1 = (heap t)[d := (heap t ! d)\<lparr>fired := True, result := v, hadError := \<not> b\<rparr>]"
    using d by (simp add: t1_def updateResult_def)
  have len1: "length (heap t1) = length (heap t)" by (simp add: h1)
  have seq1: "sequence (heap t1 ! k) = sequence (heap t ! k)" if "k < length (heap t)" for k
    using that by (cases "k = d") (simp_all add: h1)
  have mono1: "fired (heap t1 ! k)" if "k < length (heap t)" "fired (heap t ! k)" for k
    using that by (cases "k = d") (simp_all add: h1)
  have same1: "heap t1 ! k = heap t ! k" if "k \<noteq> d" for k using that by (simp add: h1)
  have "allquiet t1"
    unfolding allquiet_def
  proof (intro allI impI)
    fix k assume k: "k < length (heap t1)" and fk: "fired (heap t1 ! k)"
    have "quiet t (sequence (heap t ! k))"
    proof (cases "k = d")
      case True
      then show ?thesis using q by simp
    next
      case False
      then have "fired (heap t ! k)" using fk same1 by simp
      then have "\<not> chained t k" by (auto simp: chained_def)
      then show ?thesis using wf_shape [OF wf] k len1 by auto
    qed
    then show "quiet t1 (sequence (heap t1 ! k))"
      using k len1 seq1 mono1 by (intro quiet_mono [of t _ _ t1]) auto
  qed
  then show ?thesis by (simp add: t1_def)
qed

lemma waiting_updateResult: "waiting (updateResult d b v s) p = waiting s p"
proof -
  have "sequence (heap (updateResult d b v s) ! k) = sequence (heap s ! k)" for k
    by (cases "k = d") (simp_all add: updateResult_def)
  then show ?thesis by (simp add: waiting_def)
qed

text \<open>Timeout of a load of a run whose Deferred holds continuations only.\<close>

lemma errback_quiet:
  assumes wf: "wf t" and d: "d < length (heap t)" and nf: "\<not> fired (heap t ! d)"
    and nb: "\<not> blocked (heap t ! d)" and q: "quiet t (sequence (heap t ! d))"
  shows "outcome (errback d e t) d = Failed e"
proof -
  define t1 where "t1 = updateResult d False e t"
  have eb: "errback d e t = fire [d] t1"
    using d nf by (simp add: errback_def settle_def hasFired_def t1_def)
  have aq: "allquiet t1" unfolding t1_def by (rule allquiet_settle [OF wf d q])
  have nw: "\<not> waiting t1 d" unfolding t1_def waiting_updateResult by (rule wf_not_waiting [OF wf nf])
  have fd: "fired (heap t1 ! d)" using d by (simp add: t1_def updateResult_def)
  have "outcome (fire [d] t1) d = outcome t1 d"
    using aq fd nw by (intro fire_outcome) auto
  also have "\<dots> = Failed e" using d nb by (simp add: t1_def updateResult_def outcome_def)
  finally show ?thesis by (simp add: eb)
qed

lemma errback_verify:
  assumes "sd < length (heap t)" and "deferred < length (heap t)" and "sd \<noteq> deferred"
    and "heap t ! sd = new_Deferred\<lparr>sequence := [(Some (VerifyCallback name deferred), None),
                                  (None, Some (VerifyErrback name deferred))]\<rparr>"
    and "heap t ! deferred = new_Deferred"
  shows "outcome (errback sd e t) sd = Failed e \<and> outcome (errback sd e t) deferred = Failed e"
proof -
  define t1 where "t1 = updateResult sd False e t"
  have eb: "errback sd e t = fire [sd] t1"
    using assms(1,4) by (simp add: errback_def settle_def hasFired_def new_Deferred_def t1_def)
  have h1: "heap t1 = (heap t)[sd := (heap t ! sd)\<lparr>fired := True, result := e, hadError := True\<rparr>]"
    using assms(1) by (simp add: t1_def updateResult_def)
  have r1: "runnable t1 sd"
    using assms(1,4) by (simp add: runnable_def h1 new_Deferred_def)
  define t2 where "t2 = snd (fire_step sd t1)"
  have fs: "fire_step sd t1 = ([], t2)"
    using assms unfolding t2_def
    by (simp add: fire_step_def h1 new_Deferred_def Let_def)
  have h2: "heap t2 = (heap t)[sd := (heap t ! sd)\<lparr>fired := True, result := e, hadError := True,
            sequence := [(None, Some (VerifyErrback name deferred))]\<rparr>]"
    using assms unfolding t2_def
    by (simp add: fire_step_def h1 new_Deferred_def Let_def)
  have r2: "runnable t2 sd" using assms(1,4) by (simp add: runnable_def h2 new_Deferred_def)
  define t3 where "t3 = snd (fire_step sd t2)"
  have fs3: "fire_step sd t2 = ([deferred], t3)"
    using assms unfolding t3_def
    by (auto simp add: fire_step_def h2 new_Deferred_def Let_def settle_def hasFired_def updateResult_def)
  have h3: "heap t3 ! deferred = new_Deferred\<lparr>fired := True, result := e, hadError := True\<rparr>"
    "heap t3 ! sd = (heap t ! sd)\<lparr>fired := True, result := e, hadError := True, sequence := []\<rparr>"
    "length (heap t3) = length (heap t)"
    using assms unfolding t3_def
    by (auto simp add: fire_step_def h2 new_Deferred_def Let_def settle_def hasFired_def updateResult_def)
  have nr: "\<not> runnable t3 deferred" by (simp add: runnable_def h3 new_Deferred_def)
  have nr3: "\<not> runnable t3 sd" by (simp add: runnable_def h3)
  have "errback sd e t = t3"
    by (simp add: eb fire_run [OF r1] fs fire_run [OF r2] fs3 fire_skip [OF nr] fire_skip [OF nr3])
  then show ?thesis using assms(1,2,4) by (simp add: outcome_def h3 new_Deferred_def)
qed

lemma quietCb_not_pop: "quietCb s c \<Longrightarrow> \<not> isPop c"
  by (cases "(s, c)" rule: quietCb.cases) auto

lemma quiet_no_successor: "quiet s (sequence (heap s ! d)) \<Longrightarrow> \<not> hasSuccessor s d"
  by (auto simp: hasSuccessor_def quiet_def dest: quietCb_not_pop)

lemma chained_successor: "chained s d \<Longrightarrow> hasSuccessor s d"
  by (auto simp: hasSuccessor_def chained_def popEntry_def)

lemma hasSuccessor_cong: "heap s' = heap s \<Longrightarrow> hasSuccessor s' d = hasSuccessor s d"
  by (simp add: hasSuccessor_def)

lemma prefix_nth: "prefix xs ys \<Longrightarrow> i < length xs \<Longrightarrow> ys ! i = xs ! i"
  by (auto simp: prefix_def nth_append)

subsection \<open>Timeout: in a run, a Deferred is not blocked before it fires\<close>

lemma settledOnly_cong: "heap s' = heap s \<Longrightarrow> settledOnly s \<Longrightarrow> settledOnly s'"
  by (simp add: settledOnly_def)

lemma settledOnly_append:
  assumes "settledOnly s" and "heap s' = heap s @ [D]" and "blocked D \<longrightarrow> fired D"
  shows "settledOnly s'"
  unfolding settledOnly_def
proof (intro allI impI)
  fix x assume x: "x < length (heap s')" and b: "blocked (heap s' ! x)"
  show "fired (heap s' ! x)"
  proof (cases "x < length (heap s)")
    case True
    with b assms(1,2) show ?thesis by (simp add: settledOnly_def nth_append)
  next
    case False
    with x assms(2) have "x = length (heap s)" by simp
    with b assms(2,3) show ?thesis by simp
  qed
qed

lemma settledOnly_complete:
  fixes b :: bool and v :: jsval
  assumes wf: "wf t" and so: "settledOnly t" and d: "d < length (heap t)"
    and nf: "\<not> fired (heap t ! d)"
  shows "settledOnly (fire [d] (updateResult d b v t))"
proof -
  define t1 where "t1 = updateResult d b v t"
  define t' where "t' = fire [d] t1"
  have h1: "heap t1 = (heap t)[d := (heap t ! d)\<lparr>fired := True, result := v, hadError := \<not> b\<rparr>]"
    using d by (simp add: t1_def updateResult_def)
  have len1: "length (heap t1) = length (heap t)" by (simp add: h1)
  have fd1: "fired (heap t1 ! d)" using d by (simp add: h1)
  have same1: "heap t1 ! k = heap t ! k" if "k \<noteq> d" for k using that by (simp add: h1)
  have nb: "\<not> blocked (heap t ! d)" using so d nf by (auto simp: settledOnly_def)
  from wf_shape [OF wf d] have "settledOnly t'"
  proof
    assume q: "quiet t (sequence (heap t ! d))"
    have aq: "allquiet t1" unfolding t1_def by (rule allquiet_settle [OF wf d q])
    have c: "calm t1 t'" unfolding t'_def using aq fd1 by (intro fire_quiet) auto
    have len': "length (heap t') = length (heap t)" using calm_length [OF c] len1 by simp
    show ?thesis
      unfolding settledOnly_def
    proof (intro allI impI)
      fix x assume x: "x < length (heap t')" and bx: "blocked (heap t' ! x)"
      show "fired (heap t' ! x)"
      proof (cases "fired (heap t1 ! x)")
        case True
        then show ?thesis using calm_fired [OF c, of x] x len' len1 by simp
      next
        case False
        then have e: "heap t' ! x = heap t1 ! x" using calm_unfired [OF c, of x] x len' len1 by simp
        from False fd1 have "x \<noteq> d" by auto
        then have "heap t1 ! x = heap t ! x" by (rule same1)
        with e bx so x len' have "fired (heap t ! x)" by (simp add: settledOnly_def)
        with e \<open>heap t1 ! x = heap t ! x\<close> show ?thesis by simp
      qed
    qed
  next
    assume ch: "chained t d"
    then obtain opts rest where
      r: "sequence (heap t ! d) = popEntry opts # rest" "scriptsToLoad t \<noteq> []"
      unfolding chained_def by blast
    obtain u q' where q: "scriptsToLoad t = u # q'" using r(2) by (cases "scriptsToLoad t") auto
    have p1: "d < length (heap t1)" "fired (heap t1 ! d)" "\<not> blocked (heap t1 ! d)"
      "sequence (heap t1 ! d) = popEntry opts # rest" "scriptsToLoad t1 = u # q'"
      using d r q nb by (simp_all add: h1) (simp add: t1_def)
    note fc = fire_chained [OF p1, folded t'_def, unfolded len1]
    show ?thesis
      unfolding settledOnly_def
    proof (intro allI impI)
      fix x assume x: "x < length (heap t')" and bx: "blocked (heap t' ! x)"
      consider "x = length (heap t)" | "x = d" | "x < length (heap t)" "x \<noteq> d"
        using x fc(3) by linarith
      then show "fired (heap t' ! x)"
      proof cases
        case 1
        with bx fc(5) show ?thesis by (simp add: new_Deferred_def)
      next
        case 2
        with fc(4) p1(2) show ?thesis by simp
      next
        case 3
        then have "heap t' ! x = heap t ! x" using fc(6) same1 by simp
        with bx so 3(1) show ?thesis by (simp add: settledOnly_def)
      qed
    qed
  qed
  then show ?thesis by (simp add: t'_def t1_def)
qed

lemma settledOnly_settle:
  fixes b :: bool and v :: jsval
  assumes wf: "wf t" and so: "settledOnly t" and d: "d < length (heap t)"
  shows "settledOnly (case settle d b v t of None \<Rightarrow> t | Some (wake, t1) \<Rightarrow> fire wake t1)"
proof (cases "fired (heap t ! d)")
  case True
  then show ?thesis using so d by (simp add: settle_def hasFired_def)
next
  case False
  then show ?thesis
    using settledOnly_complete [OF wf so d False, of b v] by (simp add: settle_def hasFired_def)
qed

lemma settledOnly_host:
  assumes wf: "wf s" and so: "settledOnly s"
  shows "settledOnly (host e s)"
proof (cases e)
  case (Onload n rs)
  show ?thesis
  proof (cases "n < length (scripts s) \<and> handlers (scripts s ! n)
                \<and> (rs = NoReadyState \<or> rs = Loaded \<or> rs = Complete)")
    case True
    then have n: "n < length (scripts s)" by simp
    define t where "t = cleanup n (cleanupOption (scripts s ! n)) True s"
    note cp = cleanup_props [OF n, of "cleanupOption (scripts s ! n)" True, folded t_def]
    have mr: "map request (scripts t) = map request (scripts s)"
      using cp(3,4) by (intro nth_equalityI) simp_all
    have wft: "wf t" by (rule wf_cong [OF wf cp(1,2) mr])
    have sot: "settledOnly t" by (rule settledOnly_cong [OF cp(1) so])
    have dl: "request (scripts s ! n) < length (heap t)" using wf_request [OF wf n] cp(1) by simp
    have "host e s = (case settle (request (scripts s ! n)) True Null t of
                    None \<Rightarrow> t | Some (wake, t1) \<Rightarrow> fire wake t1)"
      using True unfolding t_def by (simp add: Onload callback_def)
    then show ?thesis using settledOnly_settle [OF wft sot dl, of True Null] by simp
  next
    case False
    then have "host e s = s" by (auto simp: Onload)
    then show ?thesis using so by simp
  qed
next
  case (Onerror n)
  show ?thesis
  proof (cases "n < length (scripts s) \<and> handlers (scripts s ! n)")
    case True
    then have n: "n < length (scripts s)" by simp
    define t where "t = cleanup n True True s"
    note cp = cleanup_props [OF n, of True True, folded t_def]
    have mr: "map request (scripts t) = map request (scripts s)"
      using cp(3,4) by (intro nth_equalityI) simp_all
    have wft: "wf t" by (rule wf_cong [OF wf cp(1,2) mr])
    have sot: "settledOnly t" by (rule settledOnly_cong [OF cp(1) so])
    have dl: "request (scripts s ! n) < length (heap t)" using wf_request [OF wf n] cp(1) by simp
    have "host e s = (case settle (request (scripts s ! n)) False (Error LOAD_ERROR) t of
                    None \<Rightarrow> t | Some (wake, t1) \<Rightarrow> fire wake t1)"
      using True unfolding t_def by (simp add: Onerror errback_def)
    then show ?thesis using settledOnly_settle [OF wft sot dl, of False "Error LOAD_ERROR"] by simp
  next
    case False
    then have "host e s = s" by (auto simp: Onerror)
    then show ?thesis using so by simp
  qed
next
  case (TimeoutFires n)
  show ?thesis
  proof (cases "n < length (scripts s) \<and> timer (scripts s ! n)")
    case True
    then have n: "n < length (scripts s)" by simp
    define s0 where "s0 = s\<lparr>scripts := (scripts s)[n := (scripts s ! n)\<lparr>timer := False\<rparr>]\<rparr>"
    define t where "t = cleanup n True False s0"
    have n0: "n < length (scripts s0)" using n by (simp add: s0_def)
    note cp = cleanup_props [OF n0, of True False, folded t_def]
    have s0: "heap s0 = heap s" "scriptsToLoad s0 = scriptsToLoad s"
      "length (scripts s0) = length (scripts s)"
      "\<forall>i < length (scripts s). request (scripts s0 ! i) = request (scripts s ! i)"
      by (simp_all add: s0_def nth_update_sel [where f = request])
    have ht: "heap t = heap s" "scriptsToLoad t = scriptsToLoad s" using cp(1,2) s0 by simp_all
    have mr: "map request (scripts t) = map request (scripts s)"
      using cp(3,4) s0 by (intro nth_equalityI) simp_all
    have wft: "wf t" by (rule wf_cong [OF wf ht mr])
    have sot: "settledOnly t" by (rule settledOnly_cong [OF ht(1) so])
    have dl: "request (scripts s ! n) < length (heap t)" using wf_request [OF wf n] ht(1) by simp
    have "host e s = (case settle (request (scripts s ! n)) False (Error TIMEOUT) t of
                    None \<Rightarrow> t | Some (wake, t1) \<Rightarrow> fire wake t1)"
      using True unfolding t_def s0_def by (simp add: TimeoutFires errback_def)
    then show ?thesis using settledOnly_settle [OF wft sot dl, of False "Error TIMEOUT"] by simp
  next
    case False
    then have "host e s = s" by (auto simp: TimeoutFires)
    then show ?thesis using so by simp
  qed
next
  case (RemoveNodeTask n)
  show ?thesis
    unfolding RemoveNodeTask by (rule settledOnly_cong [OF _ so]) simp
qed

lemma settledOnly_safeLoadMany:
  assumes so: "settledOnly s"
  shows "settledOnly (snd (safeLoadMany uris opts s))"
proof (cases uris)
  case Nil
  show ?thesis
    unfolding Nil safeLoadMany_Nil
    by (rule settledOnly_append [OF so, where D = "new_Deferred\<lparr>fired := True, result := Null\<rparr>"])
       simp_all
next
  case (Cons u rest)
  show ?thesis
  proof (cases "scriptsToLoad s = []")
    case False
    have "heap (snd (safeLoadMany uris opts s)) = heap s"
      using False by (simp add: Cons safeLoadMany_join)
    then show ?thesis using so by (rule settledOnly_cong)
  next
    case True
    show ?thesis
      unfolding Cons safeLoadMany_fresh [OF True]
      by (rule settledOnly_append [OF so, where D = "new_Deferred\<lparr>sequence :=
                  (if rest \<noteq> [] then [(Some (PopAndLoadNextScript opts),
                                          Some (PopAndLoadNextScript opts))] else [])\<rparr>"])
         (simp_all add: new_Deferred_def)
  qed
qed

lemma settledOnly_run: "settledOnly (run as init)"
proof (induction as rule: rev_induct)
  case Nil
  then show ?case by (simp add: run_def settledOnly_def init_def)
next
  case (snoc a as)
  have e: "run (as @ [a]) init = step (run as init) a" by (simp add: run_def)
  have wf: "wf (run as init)" using reachable_shape by blast
  show ?case
    unfolding e using snoc wf
    by (cases a) (simp_all add: settledOnly_safeLoadMany settledOnly_host)
qed

text \<open>In a run, the Deferred of a load is in the heap, and it is not blocked before it fires.\<close>

lemma run_request:
  assumes "t = run as init" and "n < length (scripts t)"
  shows "request (scripts t ! n) < length (heap t)
       \<and> (\<not> fired (heap t ! request (scripts t ! n)) \<longrightarrow> \<not> blocked (heap t ! request (scripts t ! n)))"
proof -
  have wf: "wf t" using assms(1) reachable_shape by blast
  have d: "request (scripts t ! n) < length (heap t)" by (rule wf_request [OF wf assms(2)])
  moreover have "settledOnly t" unfolding assms(1) by (rule settledOnly_run)
  ultimately show ?thesis by (auto simp: settledOnly_def)
qed

subsection \<open>Timeout\<close>

text \<open>
  Claim C8. Take a load whose timeout timer is armed and whose Deferred has not fired (no
  completion or error handler has run). When the timer fires, \<open>cleanup_\<close> replaces the
  handlers, the removal of the script node is scheduled in a zero-delay task (once that
  task has run, the node is no longer in the document), and the load's Deferred is fired.
  What a holder of the load's handle then observes depends on what is registered on it:
  \<^item> nothing, on a Deferred that waits for nothing (a load started by \<open>safeLoad\<close>): the
    handle has failed with \<open>TIMEOUT\<close>;
  \<^item> the callbacks of \<open>safeLoadAndVerify\<close>: the load's Deferred and the wrapping handle
    \<open>h\<close> the caller holds have both failed with \<open>TIMEOUT\<close>;
  \<^item> in a run of the queue, a load without successor (the last URI of its drain): the
    handle has failed with \<open>TIMEOUT\<close>, and no load is started;
  \<^item> in a run of the queue, a load with a successor (\<open>popAndLoadNextScript\<close> is
    registered for both outcomes): the next URI is popped and its load issued, and the
    handle has not settled: it waits for the Deferred of the new load.
\<close>

theorem timeout_settles:
  assumes n: "n < length (scripts t)" and tm: "timer (scripts t ! n)"
      and d: "d = request (scripts t ! n)" and nf: "\<not> fired (heap t ! d)"
      and s2: "s2 = host (TimeoutFires n) t"
  shows "\<not> handlers (scripts s2 ! n) \<and> \<not> timer (scripts s2 ! n)
       \<and> n \<in> set (removals s2)
       \<and> \<not> inDocument (scripts (host (RemoveNodeTask n) s2) ! n)
       \<and> (d < length (heap t) \<longrightarrow> hasFired s2 d)
       \<and> (d < length (heap t) \<and> \<not> blocked (heap t ! d) \<and> sequence (heap t ! d) = [] \<longrightarrow>
            outcome s2 d = Failed (Error TIMEOUT))
       \<and> (verifying t n name h \<longrightarrow>
            outcome s2 d = Failed (Error TIMEOUT) \<and> outcome s2 h = Failed (Error TIMEOUT))
       \<and> ((\<exists>as. t = run as init) \<longrightarrow>
            hasFired s2 d \<and>
            (if hasSuccessor t d
             then outcome s2 d = Pending
                \<and> length (scripts s2) = Suc (length (scripts t))
                \<and> src (scripts s2 ! length (scripts t)) = hd (scriptsToLoad t)
                \<and> scriptsToLoad s2 = tl (scriptsToLoad t)
                \<and> result (heap s2 ! d) = Ref (request (scripts s2 ! length (scripts t)))
             else outcome s2 d = Failed (Error TIMEOUT)
                \<and> length (scripts s2) = length (scripts t)
                \<and> scriptsToLoad s2 = scriptsToLoad t))"
proof -
  define t1 where "t1 = cleanup n True False (t\<lparr>scripts := (scripts t)[n := (scripts t ! n)\<lparr>timer := False\<rparr>]\<rparr>)"
  define t2 where "t2 = updateResult d False (Error TIMEOUT) t1"
  have h1: "heap t1 = heap t" "scriptsToLoad t1 = scriptsToLoad t"
    by (simp_all add: t1_def cleanup_def Let_def)
  have sc1: "scripts t1 ! n = (scripts t ! n)\<lparr>timer := False, handlers := False\<rparr>"
       "removals t1 = removals t @ [n]" "length (scripts t1) = length (scripts t)"
    using n by (simp_all add: t1_def cleanup_def Let_def)
  have mr: "map request (scripts t1) = map request (scripts t)"
    using n by (intro nth_equalityI) (simp_all add: t1_def cleanup_def Let_def nth_update_sel [where f = request])
  have e: "s2 = errback d (Error TIMEOUT) t1"
    using n tm d by (simp add: s2 t1_def)
  have f: "s2 = fire [d] t2"
    using nf by (simp add: e errback_def settle_def hasFired_def h1 t2_def)
  have g: "grows t2 s2" unfolding f by (rule grows_fire)
  have sc2: "scripts t2 = scripts t1" "removals t2 = removals t1" "length (heap t2) = length (heap t)"
    by (simp_all add: t2_def updateResult_def h1)
  have rm: "removals s2 = removals t @ [n]" using g sc2 sc1 by (simp add: grows_def)
  have pf: "prefix (scripts t1) (scripts s2)" using g sc2 by (simp add: grows_def)
  have nth: "scripts s2 ! n = (scripts t ! n)\<lparr>timer := False, handlers := False\<rparr>"
    using prefix_nth [OF pf, of n] n sc1 by simp
  have len: "n < length (scripts s2)"
    using pf n sc1 by (auto simp: prefix_def)
  have fired: "hasFired s2 d" if "d < length (heap t)"
  proof -
    have "fired (heap t2 ! d)" using that by (simp add: t2_def updateResult_def h1)
    then show ?thesis using g sc2 that by (auto simp: grows_def hasFired_def)
  qed
  have rem: "\<not> inDocument (scripts (host (RemoveNodeTask n) s2) ! n)"
    using len by (simp add: rm)
  have plain: "outcome s2 d = Failed (Error TIMEOUT)"
    if "d < length (heap t) \<and> \<not> blocked (heap t ! d) \<and> sequence (heap t ! d) = []"
  proof -
    have "s2 = t2" using that nf unfolding e t2_def by (intro errback_plain) (simp_all add: h1)
    then show ?thesis using that by (simp add: t2_def updateResult_def outcome_def h1)
  qed
  have verify: "outcome s2 d = Failed (Error TIMEOUT) \<and> outcome s2 h = Failed (Error TIMEOUT)"
    if "verifying t n name h"
    unfolding e using that d by (intro errback_verify) (simp_all add: verifying_def h1)
  have drain: "hasFired s2 d \<and>
            (if hasSuccessor t d
             then outcome s2 d = Pending
                \<and> length (scripts s2) = Suc (length (scripts t))
                \<and> src (scripts s2 ! length (scripts t)) = hd (scriptsToLoad t)
                \<and> scriptsToLoad s2 = tl (scriptsToLoad t)
                \<and> result (heap s2 ! d) = Ref (request (scripts s2 ! length (scripts t)))
             else outcome s2 d = Failed (Error TIMEOUT)
                \<and> length (scripts s2) = length (scripts t)
                \<and> scriptsToLoad s2 = scriptsToLoad t)"
    if "\<exists>as. t = run as init"
  proof -
    from that obtain as where r: "t = run as init" by blast
    have wft: "wf t" unfolding r using reachable_shape by blast
    have dl: "d < length (heap t)" and nb: "\<not> blocked (heap t ! d)"
      using run_request [OF r n] nf d by simp_all
    have wf1: "wf t1" by (rule wf_cong [OF wft h1 mr])
    have d1: "d < length (heap t1)" "\<not> fired (heap t1 ! d)" "\<not> blocked (heap t1 ! d)"
      using dl nf nb by (simp_all add: h1)
    have hs: "hasSuccessor t d = hasSuccessor t1 d" by (simp add: hasSuccessor_cong [OF h1(1)])
    from wf_shape [OF wf1 d1(1)]
    have "if hasSuccessor t d
             then outcome s2 d = Pending
                \<and> length (scripts s2) = Suc (length (scripts t))
                \<and> src (scripts s2 ! length (scripts t)) = hd (scriptsToLoad t)
                \<and> scriptsToLoad s2 = tl (scriptsToLoad t)
                \<and> result (heap s2 ! d) = Ref (request (scripts s2 ! length (scripts t)))
             else outcome s2 d = Failed (Error TIMEOUT)
                \<and> length (scripts s2) = length (scripts t)
                \<and> scriptsToLoad s2 = scriptsToLoad t"
    proof
      assume q: "quiet t1 (sequence (heap t1 ! d))"
      have "outcome s2 d = Failed (Error TIMEOUT)"
        unfolding e by (rule errback_quiet [OF wf1 d1 q])
      moreover have "scripts s2 = scripts t1" "scriptsToLoad s2 = scriptsToLoad t1"
        using complete_quiet(2,3) [OF wf1 d1(1,2) q, of False "Error TIMEOUT"]
        by (simp_all add: f t2_def)
      ultimately show ?thesis
        using quiet_no_successor [OF q] hs sc1 h1 by simp
    next
      assume ch: "chained t1 d"
      then obtain opts rest where
        r: "sequence (heap t1 ! d) = popEntry opts # rest" "scriptsToLoad t1 \<noteq> []"
        unfolding chained_def by blast
      obtain u q' where q: "scriptsToLoad t1 = u # q'" using r(2) by (cases "scriptsToLoad t1") auto
      have h2: "heap t2 = (heap t1)[d := (heap t1 ! d)\<lparr>fired := True, result := Error TIMEOUT, hadError := True\<rparr>]"
        using d1 by (simp add: t2_def updateResult_def)
      have p2: "d < length (heap t2)" "fired (heap t2 ! d)" "\<not> blocked (heap t2 ! d)"
        "sequence (heap t2 ! d) = popEntry opts # rest" "scriptsToLoad t2 = u # q'"
        using d1 r q by (simp_all add: h2) (simp add: t2_def)
      note fc = fire_chained [OF p2, folded f]
      have l2: "length (heap t2) = length (heap t)" by (simp add: h2 h1)
      have "outcome s2 d = Pending" using fc(4) by (simp add: outcome_def)
      moreover have "length (scripts s2) = Suc (length (scripts t))"
        using fc(1) sc2 sc1 by simp
      moreover have "scripts s2 ! length (scripts t) = loadNode u opts (length (heap t))"
        using fc(1) sc2 sc1 l2 by (simp add: nth_append)
      moreover have "scriptsToLoad s2 = q'" by (rule fc(2))
      moreover have "result (heap s2 ! d) = Ref (length (heap t))" using fc(4) l2 by simp
      ultimately show ?thesis
        using chained_successor [OF ch] hs q h1 by simp
    qed
    with fired [OF dl] show ?thesis by simp
  qed
  show ?thesis using nth rm rem fired plain verify drain by simp
qed

text \<open>
  Instances of the four cases: a load started by \<open>safeLoad\<close>; a load started by
  \<open>safeLoadAndVerify\<close>; the first load of the batch \<open>a, b\<close>; and the second load of
  that batch, after the first has timed out.
\<close>

theorem timeout_settles_witness:
  "(let t = snd (safeLoad ''a'' None init); s2 = host (TimeoutFires 0) t
    in timer (scripts t ! 0) \<and> \<not> fired (heap t ! 0) \<and> sequence (heap t ! 0) = []
       \<and> outcome s2 0 = Failed (Error TIMEOUT)
       \<and> \<not> handlers (scripts s2 ! 0) \<and> 0 \<in> set (removals s2) \<and> inDocument (scripts s2 ! 0)
       \<and> \<not> inDocument (scripts (host (RemoveNodeTask 0) s2) ! 0))
   \<and> (let t = snd (safeLoadAndVerify ''a'' ''v'' None init); s2 = host (TimeoutFires 0) t
      in verifying t 0 ''v'' 1 \<and> timer (scripts t ! 0)
         \<and> outcome s2 0 = Failed (Error TIMEOUT) \<and> outcome s2 1 = Failed (Error TIMEOUT))
   \<and> (let t = run [CallSafeLoadMany [''a'', ''b''] None] init; s2 = host (TimeoutFires 0) t
      in timer (scripts t ! 0) \<and> \<not> fired (heap t ! 0) \<and> hasSuccessor t 0
         \<and> outcome s2 0 = Pending \<and> hasFired s2 0 \<and> length (scripts s2) = 2
         \<and> src (scripts s2 ! 1) = ''b'' \<and> \<not> handlers (scripts s2 ! 0) \<and> 0 \<in> set (removals s2))
   \<and> (let t = run [CallSafeLoadMany [''a'', ''b''] None, Host (TimeoutFires 0)] init;
          s2 = host (TimeoutFires 1) t
      in timer (scripts t ! 1) \<and> \<not> fired (heap t ! 1) \<and> \<not> hasSuccessor t 1
         \<and> outcome s2 1 = Failed (Error TIMEOUT) \<and> \<not> handlers (scripts s2 ! 1)
         \<and> 1 \<in> set (removals s2))"
proof -
  have w1: "let t = snd (safeLoad ''a'' None init); s2 = host (TimeoutFires 0) t
    in timer (scripts t ! 0) \<and> \<not> fired (heap t ! 0) \<and> sequence (heap t ! 0) = []
       \<and> outcome s2 0 = Failed (Error TIMEOUT)
       \<and> \<not> handlers (scripts s2 ! 0) \<and> 0 \<in> set (removals s2) \<and> inDocument (scripts s2 ! 0)
       \<and> \<not> inDocument (scripts (host (RemoveNodeTask 0) s2) ! 0)"
  proof -
    define t where "t = snd (safeLoad ''a'' None init)"
    have h: "0 < length (scripts t)" "timer (scripts t ! 0)" "0 = request (scripts t ! 0)"
      "\<not> fired (heap t ! 0)"
      unfolding t_def by code_simp+
    have sq: "0 < length (heap t)" "\<not> blocked (heap t ! 0)" "sequence (heap t ! 0) = []"
      unfolding t_def by code_simp+
    have i: "inDocument (scripts (host (TimeoutFires 0) t) ! 0)" unfolding t_def by code_simp
    note th = timeout_settles [OF h refl]
    show ?thesis
      unfolding Let_def t_def [symmetric] using h(2,4) sq i th by blast
  qed
  have w2: "let t = snd (safeLoadAndVerify ''a'' ''v'' None init); s2 = host (TimeoutFires 0) t
      in verifying t 0 ''v'' 1 \<and> timer (scripts t ! 0)
         \<and> outcome s2 0 = Failed (Error TIMEOUT) \<and> outcome s2 1 = Failed (Error TIMEOUT)"
  proof -
    define t where "t = snd (safeLoadAndVerify ''a'' ''v'' None init)"
    have h: "0 < length (scripts t)" "timer (scripts t ! 0)" "0 = request (scripts t ! 0)"
      "\<not> fired (heap t ! 0)"
      unfolding t_def by code_simp+
    have a: "verifyObjs init ''v'' = None" by (simp add: init_def)
    have b: "safeLoadAndVerify ''a'' ''v'' None init = (1, t)"
    proof -
      have "fst (safeLoadAndVerify ''a'' ''v'' None init) = 1" by code_simp
      then show ?thesis by (simp add: t_def prod_eq_iff)
    qed
    have "verifying (t\<lparr>verifyObjs := verifyObjs t\<rparr>) (length (scripts init)) ''v'' 1"
      by (rule safeLoadAndVerify_verifying [OF a b])
    then have v: "verifying t 0 ''v'' 1" by (simp add: init_def)
    note th = timeout_settles [OF h refl, of "''v''" 1]
    show ?thesis
      unfolding Let_def t_def [symmetric] using h(2) v th by blast
  qed
  have w3: "let t = run [CallSafeLoadMany [''a'', ''b''] None] init; s2 = host (TimeoutFires 0) t
      in timer (scripts t ! 0) \<and> \<not> fired (heap t ! 0) \<and> hasSuccessor t 0
         \<and> outcome s2 0 = Pending \<and> hasFired s2 0 \<and> length (scripts s2) = 2
         \<and> src (scripts s2 ! 1) = ''b'' \<and> \<not> handlers (scripts s2 ! 0) \<and> 0 \<in> set (removals s2)"
  proof -
    define t where "t = run [CallSafeLoadMany [''a'', ''b''] None] init"
    have h: "0 < length (scripts t)" "timer (scripts t ! 0)" "0 = request (scripts t ! 0)"
      "\<not> fired (heap t ! 0)"
      unfolding t_def by code_simp+
    have r: "\<exists>as. t = run as init" unfolding t_def by blast
    have su: "hasSuccessor t 0" unfolding t_def by code_simp
    have q: "length (scripts t) = 1" "hd (scriptsToLoad t) = ''b''" unfolding t_def by code_simp+
    note th = timeout_settles [OF h refl]
    from th r su q have "outcome (host (TimeoutFires 0) t) 0 = Pending"
      "hasFired (host (TimeoutFires 0) t) 0" "length (scripts (host (TimeoutFires 0) t)) = 2"
      "src (scripts (host (TimeoutFires 0) t) ! 1) = ''b''"
      "\<not> handlers (scripts (host (TimeoutFires 0) t) ! 0)" "0 \<in> set (removals (host (TimeoutFires 0) t))"
      by (simp_all add: numeral_2_eq_2)
    then show ?thesis
      unfolding Let_def t_def [symmetric] using h(2,4) su by blast
  qed
  have w4: "let t = run [CallSafeLoadMany [''a'', ''b''] None, Host (TimeoutFires 0)] init;
          s2 = host (TimeoutFires 1) t
      in timer (scripts t ! 1) \<and> \<not> fired (heap t ! 1) \<and> \<not> hasSuccessor t 1
         \<and> outcome s2 1 = Failed (Error TIMEOUT) \<and> \<not> handlers (scripts s2 ! 1)
         \<and> 1 \<in> set (removals s2)"
  proof -
    define t where "t = run [CallSafeLoadMany [''a'', ''b''] None, Host (TimeoutFires 0)] init"
    have h: "1 < length (scripts t)" "timer (scripts t ! 1)" "1 = request (scripts t ! 1)"
      "\<not> fired (heap t ! 1)"
      unfolding t_def by code_simp+
    have r: "\<exists>as. t = run as init" unfolding t_def by blast
    have su: "\<not> hasSuccessor t 1" unfolding t_def by code_simp
    note th = timeout_settles [OF h refl]
    from th r su have "outcome (host (TimeoutFires 1) t) 1 = Failed (Error TIMEOUT)"
      "\<not> handlers (scripts (host (TimeoutFires 1) t) ! 1)" "1 \<in> set (removals (host (TimeoutFires 1) t))"
      by simp_all
    then show ?thesis
      unfolding Let_def t_def [symmetric] using h(2,4) su by blast
  qed
  show ?thesis using w1 w2 w3 w4 by blast
qed

text \<open>
  The handle of a load with a successor does not fail with \<open>TIMEOUT\<close>. The batch
  \<open>a, b\<close> is submitted and the timer of \<open>a\<close> fires while \<open>a\<close> is loading: the load of
  \<open>b\<close> is issued and the handle of the load of \<open>a\<close> (which is also the handle the
  caller of \<open>safeLoadMany\<close> got) is pending; when \<open>b\<close> has loaded, that handle succeeds
  with \<open>null\<close>.
\<close>

theorem timeout_successor_pending:
  "(let (h, t) = safeLoadMany [''a'', ''b''] None init;
        s2 = host (TimeoutFires 0) t;
        s3 = host (Onload 1 NoReadyState) s2
    in h = Ref 0 \<and> request (scripts t ! 0) = 0 \<and> timer (scripts t ! 0) \<and> handlers (scripts t ! 0)
       \<and> outcome t 0 = Pending
       \<and> outcome s2 0 = Pending \<and> map src (scripts s2) = [''a'', ''b'']
       \<and> map handlers (scripts s2) = [False, True]
       \<and> outcome s3 0 = Succeeded Null)"
  by code_simp

section \<open>Properties of the key encoding\<close>

lemma digits64: "(q div 64) * (64 * m) + (q mod 64) * m = q * (m::nat)"
proof -
  have "q * m = ((q div 64) * 64 + q mod 64) * m" by simp
  also have "\<dots> = (q div 64) * (64 * m) + (q mod 64) * m"
    unfolding add_mult_distrib mult.assoc ..
  finally show ?thesis by simp
qed

lemma split3: "(cp div 4096) * 4096 + ((cp div 64) mod 64) * 64 + cp mod 64 = (cp::nat)"
proof -
  have a: "cp div 4096 = cp div 64 div 64" by (simp add: div_mult2_eq [symmetric])
  have "(cp div 64 div 64) * 4096 + ((cp div 64) mod 64) * 64 = cp div 64 * 64"
    using digits64 [of "cp div 64" 64] by simp
  then show ?thesis unfolding a by simp
qed

lemma split4:
  "(cp div 262144) * 262144 + ((cp div 4096) mod 64) * 4096 + ((cp div 64) mod 64) * 64 + cp mod 64
     = (cp::nat)"
proof -
  have a: "cp div 262144 = cp div 4096 div 64" by (simp add: div_mult2_eq [symmetric])
  have "(cp div 4096 div 64) * 262144 + ((cp div 4096) mod 64) * 4096 = cp div 4096 * 4096"
    using digits64 [of "cp div 4096" 4096] by simp
  then show ?thesis unfolding a using split3 [of cp] by simp
qed

lemma unhex_hexDigit: "d < 16 \<Longrightarrow> unhex (hexDigit d) = Some d"
  by (simp add: unhex_def hexDigit_def)

lemma hexByte_percent: "b < 256 \<Longrightarrow> hexByte (percent b @ rest) = Some (b, rest)"
proof -
  assume b: "b < 256"
  then have "b div 16 < 16" "b mod 16 < 16" by simp_all
  then show ?thesis
    by (simp add: hexByte_def percent_def unhex_hexDigit)
qed

lemma decode_literal:
  "c \<noteq> 37 \<Longrightarrow> decodeURIComponent (c # cs) = map_option ((#) c) (decodeURIComponent cs)"
  by (subst decodeURIComponent.simps) simp

lemma decode_Nil: "decodeURIComponent [] = Some []"
  by (subst decodeURIComponent.simps) simp

lemma decode_percent:
  assumes "b < 256"
  shows "decodeURIComponent (percent b @ rest) =
     (let n = leadingOnes b in
      if n = 0 then map_option ((#) b) (decodeURIComponent rest)
      else if n = 1 \<or> n > 4 then None
      else
        (case continuation (n - 1) rest of
           None \<Rightarrow> None
         | Some (bs, rest') \<Rightarrow>
             (case utf8Decode (b # bs) of
                None \<Rightarrow> None
              | Some cp \<Rightarrow> map_option ((@) (utf16 cp)) (decodeURIComponent rest'))))"
proof -
  have p: "percent b @ rest = 37 # (tl (percent b) @ rest)" by (simp add: percent_def)
  show ?thesis
    apply (subst decodeURIComponent.simps)
    apply (subst (1 2) p)
    apply (simp only: list.case if_False not_not refl)
    apply (simp only: p [symmetric] hexByte_percent [OF assms] option.case prod.case
             not_True_eq_False if_False)
    done
qed

lemma continuation_percent:
  "128 \<le> b \<Longrightarrow> b < 192 \<Longrightarrow>
   continuation (Suc n) (percent b @ rest) =
     (case continuation n rest of None \<Rightarrow> None | Some (bs, rest') \<Rightarrow> Some (b # bs, rest'))"
  by (simp add: hexByte_percent)

lemma append_single: "(@) [c] = (#) c"
  by (rule ext) simp

lemma decode_utf8:
  assumes "cp \<le> 1114111" and "\<not> (55296 \<le> cp \<and> cp \<le> 57343)"
  shows "decodeURIComponent (concat (map percent (utf8 cp)) @ rest) =
           map_option ((@) (utf16 cp)) (decodeURIComponent rest)"
proof -
  consider "cp < 128" | "128 \<le> cp" "cp < 2048" | "2048 \<le> cp" "cp < 65536"
    | "65536 \<le> cp" by linarith
  then show ?thesis
  proof cases
    case 1
    then show ?thesis
      by (simp add: utf8_def decode_percent leadingOnes_def utf16_def append_single)
  next
    case 2
    define b0 where "b0 = 192 + cp div 64"
    define b1 where "b1 = 128 + cp mod 64"
    have r: "192 \<le> b0" "b0 < 224" "128 \<le> b1" "b1 < 192" "(b0 - 192) * 64 + (b1 - 128) = cp"
      using 2 by (simp_all add: b0_def b1_def)
    have u: "utf8 cp = [b0, b1]" using 2 by (simp add: utf8_def b0_def b1_def)
    have "decodeURIComponent (percent b0 @ percent b1 @ rest) =
            map_option ((@) (utf16 cp)) (decodeURIComponent rest)"
      using r 2
      by (simp add: decode_percent leadingOnes_def hexByte_percent utf8Decode_def)
    then show ?thesis by (simp add: u)
  next
    case 3
    define b0 where "b0 = 224 + cp div 4096"
    define b1 where "b1 = 128 + (cp div 64) mod 64"
    define b2 where "b2 = 128 + cp mod 64"
    have r: "224 \<le> b0" "b0 < 240" "128 \<le> b1" "b1 < 192" "128 \<le> b2" "b2 < 192"
      using 3 by (simp_all add: b0_def b1_def b2_def)
    have cp: "(b0 - 224) * 4096 + (b1 - 128) * 64 + (b2 - 128) = cp"
      unfolding b0_def b1_def b2_def using split3 [of cp] by simp
    have u: "utf8 cp = [b0, b1, b2]" using 3 by (simp add: utf8_def b0_def b1_def b2_def)
    have c2: "continuation 2 (percent b1 @ percent b2 @ rest) = Some ([b1, b2], rest)"
      using r by (simp add: numeral_2_eq_2 hexByte_percent)
    have "decodeURIComponent (percent b0 @ percent b1 @ percent b2 @ rest) =
            map_option ((@) (utf16 cp)) (decodeURIComponent rest)"
      using r 3 assms(2) by (simp add: decode_percent leadingOnes_def c2 utf8Decode_def cp)
    then show ?thesis by (simp add: u)
  next
    case 4
    define b0 where "b0 = 240 + cp div 262144"
    define b1 where "b1 = 128 + (cp div 4096) mod 64"
    define b2 where "b2 = 128 + (cp div 64) mod 64"
    define b3 where "b3 = 128 + cp mod 64"
    have r: "240 \<le> b0" "b0 < 248" "128 \<le> b1" "b1 < 192" "128 \<le> b2" "b2 < 192"
      "128 \<le> b3" "b3 < 192"
      using 4 assms(1) by (simp_all add: b0_def b1_def b2_def b3_def)
    have cp: "(b0 - 240) * 262144 + (b1 - 128) * 4096 + (b2 - 128) * 64 + (b3 - 128) = cp"
      unfolding b0_def b1_def b2_def b3_def using split4 [of cp] by simp
    have u: "utf8 cp = [b0, b1, b2, b3]" using 4 by (simp add: utf8_def b0_def b1_def b2_def b3_def)
    have c3: "continuation 3 (percent b1 @ percent b2 @ percent b3 @ rest) = Some ([b1, b2, b3], rest)"
      using r by (simp add: numeral_3_eq_3 hexByte_percent)
    have "decodeURIComponent (percent b0 @ percent b1 @ percent b2 @ percent b3 @ rest) =
            map_option ((@) (utf16 cp)) (decodeURIComponent rest)"
      using r 4 assms(1) by (simp add: decode_percent leadingOnes_def c3 utf8Decode_def cp)
    then show ?thesis by (simp add: u)
  qed
qed

lemma hexDigit_plain: "d < 16 \<Longrightarrow> escapeChar (hexDigit d) = [hexDigit d] \<and> hexDigit d \<noteq> 46"
  by (auto simp: hexDigit_def escapeChar_def)

lemma escape_percent:
  assumes "b < 256"
  shows "map dotToPercent (concat (map escapeChar (percent b))) = percent b"
proof -
  have d: "b div 16 < 16" "b mod 16 < 16" using assms by simp_all
  have e: "escapeChar 37 = [46]" by (simp add: escapeChar_def ENCODE_MAP_def)
  have h: "escapeChar (hexDigit (b div 16)) = [hexDigit (b div 16)]"
    "escapeChar (hexDigit (b mod 16)) = [hexDigit (b mod 16)]"
    "dotToPercent (hexDigit (b div 16)) = hexDigit (b div 16)"
    "dotToPercent (hexDigit (b mod 16)) = hexDigit (b mod 16)"
    using hexDigit_plain [OF d(1)] hexDigit_plain [OF d(2)] by (simp_all add: dotToPercent_def)
  show ?thesis by (simp add: percent_def e h) (simp add: dotToPercent_def)
qed

lemma escape_percents:
  "\<forall>b \<in> set bs. b < 256 \<Longrightarrow>
   map dotToPercent (concat (map escapeChar (concat (map percent bs)))) = concat (map percent bs)"
  by (induction bs) (simp_all add: escape_percent)

lemma utf8_bytes: "cp \<le> 1114111 \<Longrightarrow> \<forall>b \<in> set (utf8 cp). b < 256"
  by (auto simp: utf8_def)

lemma escape_unescaped:
  assumes "uriUnescaped c"
  shows "decodeURIComponent (map dotToPercent (escapeChar c) @ rest)
           = map_option ((#) c) (decodeURIComponent rest)"
proof -
  consider "alphanumeric c \<or> c = 45 \<or> c = 95"
    | "c = 46" | "c = 33" | "c = 126" | "c = 42" | "c = 39" | "c = 40" | "c = 41"
    using assms by (auto simp: uriUnescaped_def)
  then show ?thesis
  proof cases
    case 1
    then have "escapeChar c = [c]" "c \<noteq> 46" "c \<noteq> 37"
      by (auto simp: escapeChar_def alphanumeric_def)
    then show ?thesis by (simp add: dotToPercent_def decode_literal)
  qed (use decode_percent [of c rest] in
        \<open>simp_all add: escapeChar_def ENCODE_MAP_def dotToPercent_def percent_def hexDigit_def
           leadingOnes_def\<close>)
qed

lemma pair_range:
  assumes "leadSurrogate c" and "trailSurrogate c2"
  shows "65536 \<le> pairCodePoint c c2" "pairCodePoint c c2 \<le> 1114111"
    "utf16 (pairCodePoint c c2) = [c, c2]"
proof -
  define h where "h = c - 55296"
  define l where "l = c2 - 56320"
  have h: "h < 1024" "c = 55296 + h" using assms(1) by (auto simp: leadSurrogate_def h_def)
  have l: "l < 1024" "c2 = 56320 + l" using assms(2) by (auto simp: trailSurrogate_def l_def)
  have p: "pairCodePoint c c2 = h * 1024 + l + 65536" by (simp add: pairCodePoint_def h_def l_def)
  show "65536 \<le> pairCodePoint c c2" by (simp add: p)
  have "h * 1024 \<le> 1023 * 1024" using h(1) by simp
  then show "pairCodePoint c c2 \<le> 1114111" using l(1) by (simp add: p)
  have "(h * 1024 + l) div 1024 = h" "(h * 1024 + l) mod 1024 = l" using l(1) by simp_all
  then have "utf16 (h * 1024 + l + 65536) = [55296 + h, 56320 + l]" by (simp add: utf16_def)
  then show "utf16 (pairCodePoint c c2) = [c, c2]" unfolding p h(2) [symmetric] l(2) [symmetric] .
qed

lemma roundTrip_core:
  assumes "isString k" and "wellFormed k"
  shows "\<exists>e. encodeURIComponent k = Some e
           \<and> decodeURIComponent (map dotToPercent (concat (map escapeChar e))) = Some k"
  using assms
proof (induction k rule: wellFormed.induct)
  case 1
  then show ?case by (simp add: decode_Nil)
next
  case (2 c cs)
  have c: "c < 65536" using "2.prems"(1) by (simp add: isString_def)
  have nt: "\<not> trailSurrogate c" using "2.prems"(2) by (auto split: if_splits)
  show ?case
  proof (cases "leadSurrogate c")
    case True
    then have nu: "\<not> uriUnescaped c"
      by (auto simp: leadSurrogate_def uriUnescaped_def alphanumeric_def)
    from True nt "2.prems"(2) obtain c2 cs' where cs: "cs = c2 # cs'" and t2: "trailSurrogate c2"
      and wf': "wellFormed cs'" by (auto split: list.splits)
    have "isString cs'" using "2.prems"(1) by (simp add: isString_def cs)
    from "2.IH"(1) [OF nt True cs this wf'] obtain e where
      e: "encodeURIComponent cs' = Some e"
         "decodeURIComponent (map dotToPercent (concat (map escapeChar e))) = Some cs'" by blast
    define seg where "seg = concat (map percent (utf8 (pairCodePoint c c2)))"
    note pr = pair_range [OF True t2]
    have enc: "encodeURIComponent (c # cs) = Some (seg @ e)"
      using nu nt True t2 e(1) by (simp add: cs seg_def)
    have "map dotToPercent (concat (map escapeChar seg)) = seg"
      unfolding seg_def by (rule escape_percents [OF utf8_bytes [OF pr(2)]])
    then have "decodeURIComponent (map dotToPercent (concat (map escapeChar (seg @ e))))
        = decodeURIComponent (seg @ map dotToPercent (concat (map escapeChar e)))" by simp
    also have "\<dots> = map_option ((@) (utf16 (pairCodePoint c c2)))
                       (decodeURIComponent (map dotToPercent (concat (map escapeChar e))))"
      unfolding seg_def using pr(1,2) by (intro decode_utf8) simp_all
    also have "\<dots> = Some (c # cs)" by (simp add: e(2) pr(3) cs)
    finally show ?thesis using enc by blast
  next
    case False
    have wf': "wellFormed cs" using "2.prems"(2) nt False by simp
    have "isString cs" using "2.prems"(1) by (simp add: isString_def)
    from "2.IH"(2) [OF nt False this wf'] obtain e where
      e: "encodeURIComponent cs = Some e"
         "decodeURIComponent (map dotToPercent (concat (map escapeChar e))) = Some cs" by blast
    show ?thesis
    proof (cases "uriUnescaped c")
      case True
      then have enc: "encodeURIComponent (c # cs) = Some (c # e)" using e(1) by simp
      have "decodeURIComponent (map dotToPercent (concat (map escapeChar (c # e))))
          = decodeURIComponent (map dotToPercent (escapeChar c)
              @ map dotToPercent (concat (map escapeChar e)))" by simp
      also have "\<dots> = Some (c # cs)" by (simp add: escape_unescaped [OF True] e(2))
      finally show ?thesis using enc by blast
    next
      case nu: False
      define seg where "seg = concat (map percent (utf8 c))"
      have enc: "encodeURIComponent (c # cs) = Some (seg @ e)"
        using nu nt False e(1) by (simp add: seg_def)
      have ns: "\<not> (55296 \<le> c \<and> c \<le> 57343)"
        using nt False by (auto simp: leadSurrogate_def trailSurrogate_def)
      have le: "c \<le> 1114111" using c by simp
      have "map dotToPercent (concat (map escapeChar seg)) = seg"
        unfolding seg_def by (rule escape_percents [OF utf8_bytes [OF le]])
      then have "decodeURIComponent (map dotToPercent (concat (map escapeChar (seg @ e))))
          = decodeURIComponent (seg @ map dotToPercent (concat (map escapeChar e)))" by simp
      also have "\<dots> = map_option ((@) (utf16 c))
                       (decodeURIComponent (map dotToPercent (concat (map escapeChar e))))"
        unfolding seg_def by (rule decode_utf8 [OF le ns])
      also have "\<dots> = Some (c # cs)" using c by (simp add: e(2) utf16_def)
      finally show ?thesis using enc by blast
    qed
  qed
qed

lemma encode_illFormed: "\<not> wellFormed k \<Longrightarrow> encodeURIComponent k = None"
proof (induction k rule: wellFormed.induct)
  case 1
  then show ?case by simp
next
  case (2 c cs)
  have nu: "\<not> uriUnescaped c" if "trailSurrogate c \<or> leadSurrogate c"
    using that by (auto simp: leadSurrogate_def trailSurrogate_def uriUnescaped_def alphanumeric_def)
  show ?case
  proof (cases "trailSurrogate c")
    case True
    then show ?thesis using nu by simp
  next
    case nt: False
    show ?thesis
    proof (cases "leadSurrogate c")
      case True
      then show ?thesis
        using nu nt 2 by (cases cs) (auto split: if_splits)
    next
      case False
      then have "encodeURIComponent cs = None" using 2 nt by simp
      then show ?thesis using nt False by simp
    qed
  qed
qed

text \<open>
  Claim C10, as amended. For every string without an unpaired surrogate, decoding the
  encoded key gives the key back. On a string with an unpaired surrogate
  \<open>encodeURIComponent\<close> throws a \<open>URIError\<close>, so \<open>encodeKey_\<close> returns nothing to decode;
  the one-unit string \<open>"\\uD800"\<close> is such a key.
\<close>

theorem encodeKey_roundTrip:
  assumes "isString k" and "wellFormed k"
  shows "roundTrip k = Some k"
proof -
  from roundTrip_core [OF assms] obtain e where
    e: "encodeURIComponent k = Some e"
       "decodeURIComponent (map dotToPercent (concat (map escapeChar e))) = Some k" by blast
  have "decodeKey (95 # concat (map escapeChar e)) = Some k"
    by (simp add: decodeKey_def dotToPercent_def [of 95] decode_literal e(2))
  then show ?thesis by (simp add: roundTrip_def encodeKey_def e(1))
qed

lemma roundTrip_illFormed: "\<not> wellFormed k \<Longrightarrow> roundTrip k = None"
  by (simp add: roundTrip_def encodeKey_def encode_illFormed)

theorem roundTrip_counterexample: "isString [55296] \<and> roundTrip [55296] = None"
  by (simp add: isString_def roundTrip_def encodeKey_def uriUnescaped_def alphanumeric_def
      trailSurrogate_def leadSurrogate_def)

theorem encodeKey_roundTrip_witness:
  "isString [97, 46, 233, 55357, 56832, 37, 32] \<and> wellFormed [97, 46, 233, 55357, 56832, 37, 32]
   \<and> encodeKey [97, 46, 233, 55357, 56832, 37, 32]
       = Some [95, 97, 46, 50, 69, 46, 67, 51, 46, 65, 57, 46, 70, 48, 46, 57, 70, 46,
               57, 56, 46, 56, 48, 46, 50, 53, 46, 50, 48]
   \<and> roundTrip [97, 46, 233, 55357, 56832, 37, 32] = Some [97, 46, 233, 55357, 56832, 37, 32]"
proof -
  have a: "isString [97, 46, 233, 55357, 56832, 37, 32]" by (simp add: isString_def)
  have b: "wellFormed [97, 46, 233, 55357, 56832, 37, 32]"
    by (simp add: trailSurrogate_def leadSurrogate_def)
  have c: "encodeKey [97, 46, 233, 55357, 56832, 37, 32]
       = Some [95, 97, 46, 50, 69, 46, 67, 51, 46, 65, 57, 46, 70, 48, 46, 57, 70, 46,
               57, 56, 46, 56, 48, 46, 50, 53, 46, 50, 48]"
    by (simp add: encodeKey_def uriUnescaped_def alphanumeric_def trailSurrogate_def
        leadSurrogate_def pairCodePoint_def utf8_def percent_def hexDigit_def escapeChar_def
        ENCODE_MAP_def)
  show ?thesis using a b c encodeKey_roundTrip [OF a b] by blast
qed

end
